theory Spec2Isabelle
  imports Complex_Main "HOL-Library.Sublist"
begin

section \<open>The batched sink of serilogger (src/batchedSink.ts)\<close>

text \<open>
  \<^verbatim>\<open>BatchedSink\<close> buffers log events and hands them to an inner sink in batches, on a
  timer, on \<^verbatim>\<open>flush()\<close> or when an \<^verbatim>\<open>emit\<close> overflows \<^verbatim>\<open>maxSize\<close>. The class is
  embedded as a record of its fields together with the parts of the JavaScript
  environment that its methods read and write: the \<^verbatim>\<open>Storage\<close> object, the timers, the
  clock, the promise continuations that are still waiting, and the batches the inner sink
  has received. Every method is a function on that record. JavaScript runs the methods
  and the promise continuations one at a time, so a method body is one atomic step.

  What the model leaves to the collaborators: the inner sink's \<^verbatim>\<open>emit\<close> and
  \<^verbatim>\<open>flush\<close> return without throwing, the store's \<^verbatim>\<open>setItem\<close> and \<^verbatim>\<open>removeItem\<close>
  succeed, and numbers (\<^verbatim>\<open>maxSize\<close>, \<^verbatim>\<open>period\<close>) are integers.
\<close>

subsection \<open>Arrays\<close>

text \<open>
  \<^verbatim>\<open>Array.prototype.slice(start, end)\<close>: a negative index counts from the end, both
  indices are clamped to the array, and an empty range gives the empty array.
\<close>

definition slice :: "'a list \<Rightarrow> int \<Rightarrow> int \<Rightarrow> 'a list" where
  "slice xs start fin =
     (let len = int (length xs);
          k = (if start < 0 then max (len + start) 0 else min start len);
          final = (if fin < 0 then max (len + fin) 0 else min fin len)
      in take (nat (final - k)) (drop (nat k) xs))"

subsection \<open>The durable store\<close>

text \<open>
  A \<^verbatim>\<open>Storage\<close> object: keys with their values, in the order in which
  \<^verbatim>\<open>for (const key in store)\<close> enumerates them. The engine writes
  \<^verbatim>\<open>JSON.stringify(batchedEvents)\<close> and reads it back with \<^verbatim>\<open>JSON.parse\<close>, rebuilding
  each event's message template from its raw text; the model keeps, for each key, the
  list of events that the stored text denotes.
\<close>

type_synonym 'e storage = "(string \<times> 'e list) list"

fun getItem :: "'e storage \<Rightarrow> string \<Rightarrow> 'e list option" where
  "getItem [] key = None"
| "getItem ((k, v) # st) key = (if k = key then Some v else getItem st key)"

fun setItem :: "'e storage \<Rightarrow> string \<Rightarrow> 'e list \<Rightarrow> 'e storage" where
  "setItem [] key val = [(key, val)]"
| "setItem ((k, v) # st) key val =
     (if k = key then (k, val) # st else (k, v) # setItem st key val)"

fun removeItem :: "'e storage \<Rightarrow> string \<Rightarrow> 'e storage" where
  "removeItem [] key = []"
| "removeItem ((k, v) # st) key =
     (if k = key then removeItem st key else (k, v) # removeItem st key)"

subsection \<open>Batch keys\<close>

definition durableStorageKey :: string where
  "durableStorageKey = ''serilogger-batched-sink-durable-cache''"

definition digit_char :: "nat \<Rightarrow> char" where
  "digit_char d = ''0123456789'' ! d"

function show_nat :: "nat \<Rightarrow> string" where
  "show_nat n =
     (if n < 10 then [digit_char n] else show_nat (n div 10) @ [digit_char (n mod 10)])"
  by pat_completeness auto
termination
  by (relation "measure (\<lambda>n. n)") auto

declare show_nat.simps [simp del]

text \<open>The template literal \<^verbatim>\<open>`${this.durableStorageKey}-${new Date().getTime()}`\<close>.\<close>

definition mkBatchKey :: "nat \<Rightarrow> string" where
  "mkBatchKey t = durableStorageKey @ ''-'' @ show_nat t"

text \<open>\<^verbatim>\<open>key.indexOf(this.durableStorageKey) === 0\<close>: the key starts with the namespace.\<close>

definition inNamespace :: "string \<Rightarrow> bool" where
  "inNamespace key = prefix durableStorageKey key"

subsection \<open>The inner sink and promises\<close>

text \<open>
  What a call of the inner sink returns, as far as \<^verbatim>\<open>instanceof Promise\<close> tells:
  a promise of the sink's own, or some other value.
\<close>

datatype reply = Promise | Other

record sink =
  emitReply :: reply
  flushReply :: reply

text \<open>
  The continuation that \<^verbatim>\<open>cycleBatch\<close> attaches to a dispatch: the snapshot
  \<^verbatim>\<open>processEvents\<close>, the key \<^verbatim>\<open>previousBatchKey\<close>, and whether the promise it waits
  for is the sink's (which may be rejected) or \<^verbatim>\<open>Promise.resolve()\<close> (which is not).
\<close>

record 'e dispatch =
  processEvents :: "'e list"
  previousBatchKey :: string
  canReject :: bool

text \<open>
  The values \<^verbatim>\<open>flushCore\<close> can return: the promise of the inner sink's
  \<^verbatim>\<open>flush()\<close>, the promise \<^verbatim>\<open>Promise.resolve()\<close>, or a value of the inner sink that
  is no promise.
\<close>

datatype completion = SinkFlushPromise | ResolvedPromise | NotAPromise

definition instanceofPromise :: "completion \<Rightarrow> bool" where
  "instanceofPromise v = (v \<noteq> NotAPromise)"

datatype outcome = Fulfilled | Rejected

text \<open>How a promise settles, given how the sink's flush promise settles.\<close>

fun settles :: "completion \<Rightarrow> outcome \<Rightarrow> outcome option" where
  "settles SinkFlushPromise sinkOutcome = Some sinkOutcome"
| "settles ResolvedPromise sinkOutcome = Some Fulfilled"
| "settles NotAPromise sinkOutcome = None"

text \<open>A JavaScript number as far as \<^verbatim>\<open>period\<close> needs it.\<close>

datatype number = NaN | Num int

fun isNaN :: "number \<Rightarrow> bool" where
  "isNaN NaN = True"
| "isNaN (Num n) = False"

fun greaterThanZero :: "number \<Rightarrow> bool" where
  "greaterThanZero NaN = False"
| "greaterThanZero (Num n) = (n > 0)"

subsection \<open>The engine\<close>

text \<open>
  The first group of fields is the class's (\<^verbatim>\<open>options\<close> flattened); the second is the
  environment. \<^verbatim>\<open>clock\<close> gives the successive readings of \<^verbatim>\<open>new Date().getTime()\<close>
  and \<^verbatim>\<open>reads\<close> counts the readings taken. \<^verbatim>\<open>timers\<close> holds the handles of the
  armed timeouts. \<^verbatim>\<open>received\<close> lists the batches passed to \<^verbatim>\<open>innerSink.emit\<close>, oldest
  first. \<^verbatim>\<open>cycleCalls\<close> and \<^verbatim>\<open>flushCalls\<close> count the calls of \<^verbatim>\<open>cycleBatch\<close> and of
  \<^verbatim>\<open>innerSink.flush\<close>; the code does not read them.
\<close>

record 'e BatchedSink =
  maxSize :: int
  period :: number
  durableStore :: "'e storage option"
  innerSink :: "sink option"
  batchedEvents :: "'e list"
  batchTimeout :: "nat option"
  batchKey :: string
  shouldCycleContinue :: bool
  timers :: "nat list"
  nextTimer :: nat
  clock :: "nat \<Rightarrow> nat"
  reads :: nat
  pending :: "'e dispatch list"
  received :: "'e list list"
  cycleCalls :: nat
  flushCalls :: nat

definition clearTimeout :: "nat option \<Rightarrow> 'e BatchedSink \<Rightarrow> 'e BatchedSink" where
  "clearTimeout h s =
     (case h of None \<Rightarrow> s | Some t \<Rightarrow> s\<lparr>timers := removeAll t (timers s)\<rparr>)"

definition setTimeout :: "'e BatchedSink \<Rightarrow> 'e BatchedSink" where
  "setTimeout s =
     s\<lparr>batchTimeout := Some (nextTimer s),
       timers := timers s @ [nextTimer s],
       nextTimer := Suc (nextTimer s)\<rparr>"

definition push :: "'e list \<Rightarrow> 'e BatchedSink \<Rightarrow> 'e BatchedSink" where
  "push es s = s\<lparr>batchedEvents := batchedEvents s @ es\<rparr>"

definition storeEvents :: "'e BatchedSink \<Rightarrow> 'e BatchedSink" where
  "storeEvents s =
     (case durableStore s of
        None \<Rightarrow> s
      | Some st \<Rightarrow> s\<lparr>durableStore := Some (setItem st (batchKey s) (batchedEvents s))\<rparr>)"

text \<open>
  \<^verbatim>\<open>emitCore\<close> and the promise chain of \<^verbatim>\<open>cycleBatch\<close>: the snapshot goes to the inner
  sink if there is one, and the continuation waits.
\<close>

definition dispatchBatch :: "'e BatchedSink \<Rightarrow> 'e BatchedSink" where
  "dispatchBatch s =
     (let processEvents = batchedEvents s;
          previousBatchKey = batchKey s
      in s\<lparr>batchedEvents := [],
           received := (case innerSink s of
                          None \<Rightarrow> received s
                        | Some snk \<Rightarrow> received s @ [processEvents]),
           pending := pending s @
             [\<lparr>processEvents = processEvents, previousBatchKey = previousBatchKey,
               canReject = (case innerSink s of
                              None \<Rightarrow> False
                            | Some snk \<Rightarrow> emitReply snk = Promise)\<rparr>]\<rparr>)"

definition cycleBatch :: "'e BatchedSink \<Rightarrow> 'e BatchedSink" where
  "cycleBatch s0 =
     (let s1 = clearTimeout (batchTimeout s0) (s0\<lparr>cycleCalls := Suc (cycleCalls s0)\<rparr>)
      in if \<not> shouldCycleContinue s1 then s1
         else
           let s2 = (if batchedEvents s1 \<noteq> [] then dispatchBatch s1 else s1);
               s3 = s2\<lparr>batchKey := mkBatchKey (clock s2 (reads s2)),
                       reads := Suc (reads s2)\<rparr>
           in if \<not> isNaN (period s3) \<and> greaterThanZero (period s3) then setTimeout s3
              else s3)"

text \<open>
  The \<^verbatim>\<open>while\<close> loop of \<^verbatim>\<open>emit\<close>. With \<^verbatim>\<open>maxSize\<close> not positive the cursor never
  reaches the end of the events and the loop does not end: its value is then \<open>None\<close>.
\<close>

partial_function (option) emitLoop ::
  "'e list \<Rightarrow> int \<Rightarrow> 'e BatchedSink \<Rightarrow> 'e BatchedSink option" where
  "emitLoop events cursor s =
     (if cursor < int (length events) then
        (let s1 = cycleBatch s;
             cursor' = cursor + maxSize s1;
             s2 = push (slice events cursor cursor') s1
         in emitLoop events cursor' (storeEvents s2))
      else Some s)"

declare emitLoop.simps [code]

definition emit :: "'e list \<Rightarrow> 'e BatchedSink \<Rightarrow> ('e list \<times> 'e BatchedSink) option" where
  "emit events s =
     (if int (length (batchedEvents s)) + int (length events) \<le> maxSize s then
        Some (events, storeEvents (push events s))
      else
        let cursor = (if maxSize s - int (length (batchedEvents s)) < 0 then 0
                      else maxSize s - int (length (batchedEvents s)));
            s1 = storeEvents (push (slice events 0 cursor) s)
        in map_option (Pair events) (emitLoop events cursor s1))"

definition flushCore :: "'e BatchedSink \<Rightarrow> completion \<times> 'e BatchedSink" where
  "flushCore s =
     (case innerSink s of
        None \<Rightarrow> (ResolvedPromise, s)
      | Some snk \<Rightarrow>
          (if flushReply snk = Promise then SinkFlushPromise else NotAPromise,
           s\<lparr>flushCalls := Suc (flushCalls s)\<rparr>))"

definition flush :: "'e BatchedSink \<Rightarrow> completion \<times> 'e BatchedSink" where
  "flush s =
     (let s1 = cycleBatch s;
          (corePromise, s2) = flushCore s1
      in (if instanceofPromise corePromise then corePromise else ResolvedPromise, s2))"

definition stopCycle :: "'e BatchedSink \<Rightarrow> 'e BatchedSink" where
  "stopCycle s = clearTimeout (batchTimeout s) (s\<lparr>shouldCycleContinue := False\<rparr>)"

subsection \<open>Promise continuations and the timer\<close>

text \<open>
  The \<^verbatim>\<open>.then\<close> handler of the \<open>i\<close>-th waiting dispatch: the entry under the key
  the snapshot was dispatched with leaves the store.
\<close>

definition onFulfilled :: "nat \<Rightarrow> 'e BatchedSink \<Rightarrow> 'e BatchedSink" where
  "onFulfilled i s =
     (let d = pending s ! i;
          s1 = s\<lparr>pending := take i (pending s) @ drop (Suc i) (pending s)\<rparr>
      in case durableStore s1 of
           None \<Rightarrow> s1
         | Some st \<Rightarrow> s1\<lparr>durableStore := Some (removeItem st (previousBatchKey d))\<rparr>)"

text \<open>The \<^verbatim>\<open>.catch\<close> handler: \<^verbatim>\<open>this.batchedEvents.unshift(...processEvents)\<close>.\<close>

definition onRejected :: "nat \<Rightarrow> 'e BatchedSink \<Rightarrow> 'e BatchedSink" where
  "onRejected i s =
     (let d = pending s ! i
      in s\<lparr>pending := take i (pending s) @ drop (Suc i) (pending s),
           batchedEvents := processEvents d @ batchedEvents s\<rparr>)"

text \<open>The callback \<^verbatim>\<open>() => this.cycleBatch()\<close> of the timeout with handle \<open>t\<close>.\<close>

definition timerFires :: "nat \<Rightarrow> 'e BatchedSink \<Rightarrow> 'e BatchedSink" where
  "timerFires t s = cycleBatch (s\<lparr>timers := removeAll t (timers s)\<rparr>)"

subsection \<open>The constructor\<close>

record 'e BatchedSinkOptions =
  optMaxSize :: "int option"
  optPeriod :: "number option"
  optDurableStore :: "'e storage option"

definition defaultMaxSize :: int where
  "defaultMaxSize = 100"

definition defaultPeriod :: number where
  "defaultPeriod = Num 5"

text \<open>
  The \<^verbatim>\<open>for (const key in store)\<close> loop over the keys the store had when the loop
  began; a key that has left the store by the time its turn comes is not visited.
\<close>

fun rehydrate :: "string list \<Rightarrow> 'e list \<times> 'e storage \<Rightarrow> 'e list \<times> 'e storage" where
  "rehydrate [] (initialBatch, st) = (initialBatch, st)"
| "rehydrate (key # keys) (initialBatch, st) =
     (case getItem st key of
        None \<Rightarrow> rehydrate keys (initialBatch, st)
      | Some storedEvents \<Rightarrow>
          if inNamespace key
          then rehydrate keys (initialBatch @ storedEvents, removeItem st key)
          else rehydrate keys (initialBatch, st))"

definition newSink ::
  "sink option \<Rightarrow> 'e BatchedSinkOptions \<Rightarrow> (nat \<Rightarrow> nat) \<Rightarrow> 'e BatchedSink" where
  "newSink snk options clk =
     \<lparr>maxSize = (case optMaxSize options of None \<Rightarrow> defaultMaxSize | Some m \<Rightarrow> m),
      period = (case optPeriod options of None \<Rightarrow> defaultPeriod | Some p \<Rightarrow> p),
      durableStore = optDurableStore options,
      innerSink = snk,
      batchedEvents = [],
      batchTimeout = None,
      batchKey = [],
      shouldCycleContinue = True,
      timers = [],
      nextTimer = 1,
      clock = clk,
      reads = 0,
      pending = [],
      received = [],
      cycleCalls = 0,
      flushCalls = 0\<rparr>"

text \<open>
  \<open>newSink\<close> is the object with its field initialisers and the merged options;
  \<open>constructor\<close> is the rest of the constructor's body. It ends with a call of
  \<^verbatim>\<open>emit\<close>, so it returns only when that does.
\<close>

definition constructor ::
  "sink option \<Rightarrow> 'e BatchedSinkOptions \<Rightarrow> (nat \<Rightarrow> nat) \<Rightarrow> 'e BatchedSink option" where
  "constructor snk options clk =
     (let s1 = cycleBatch (newSink snk options clk)
      in case durableStore s1 of
           None \<Rightarrow> Some s1
         | Some st \<Rightarrow>
             (let (initialBatch, st') = rehydrate (map fst st) ([], st)
              in map_option snd (emit initialBatch (s1\<lparr>durableStore := Some st'\<rparr>))))"

subsection \<open>Runs\<close>

text \<open>
  What can happen to an engine, one thing at a time: a call of a public method, a
  timeout firing, a waiting promise settling. A step that cannot happen in the state,
  or an \<^verbatim>\<open>emit\<close> that does not return, is \<open>None\<close>.
\<close>

datatype 'e action =
  Emit "'e list" | Flush | StopCycle | TimerFires nat | Fulfil nat | Reject nat

fun step :: "'e action \<Rightarrow> 'e BatchedSink \<Rightarrow> 'e BatchedSink option" where
  "step (Emit es) s = map_option snd (emit es s)"
| "step Flush s = Some (snd (flush s))"
| "step StopCycle s = Some (stopCycle s)"
| "step (TimerFires t) s = (if t \<in> set (timers s) then Some (timerFires t s) else None)"
| "step (Fulfil i) s = (if i < length (pending s) then Some (onFulfilled i s) else None)"
| "step (Reject i) s =
     (if i < length (pending s) \<and> canReject (pending s ! i) then Some (onRejected i s)
      else None)"

fun run :: "'e action list \<Rightarrow> 'e BatchedSink \<Rightarrow> 'e BatchedSink option" where
  "run [] s = Some s"
| "run (a # as) s = (case step a s of None \<Rightarrow> None | Some s' \<Rightarrow> run as s')"

subsection \<open>Measures and invariants used in the statements\<close>

text \<open>The number of \<^verbatim>\<open>cycleBatch\<close> calls one call of \<^verbatim>\<open>emit\<close> makes.\<close>

definition forcedCycles :: "'e list \<Rightarrow> 'e BatchedSink \<Rightarrow> nat option" where
  "forcedCycles es s = map_option (\<lambda>(r, s'). cycleCalls s' - cycleCalls s) (emit es s)"

text \<open>Every armed timeout is the one whose handle the engine holds.\<close>

definition timersOwned :: "'e BatchedSink \<Rightarrow> bool" where
  "timersOwned s = (\<forall>t \<in> set (timers s). batchTimeout s = Some t)"

text \<open>The store has one entry per key.\<close>

definition keysDistinct :: "'e BatchedSink \<Rightarrow> bool" where
  "keysDistinct s = (case durableStore s of None \<Rightarrow> True | Some st \<Rightarrow> distinct (map fst st))"

text \<open>The entry under the active key is the buffer.\<close>

definition mirrored :: "'e BatchedSink \<Rightarrow> bool" where
  "mirrored s =
     (case durableStore s of
        None \<Rightarrow> True
      | Some st \<Rightarrow> getItem st (batchKey s) = Some (batchedEvents s))"

text \<open>The events of the entries of the namespace, in the store's order, and the other
  entries.\<close>

definition namespaceEvents :: "'e storage \<Rightarrow> 'e list" where
  "namespaceEvents st = concat (map snd (filter (\<lambda>p. inNamespace (fst p)) st))"

definition otherEntries :: "'e storage \<Rightarrow> 'e storage" where
  "otherEntries st = filter (\<lambda>p. \<not> inNamespace (fst p)) st"

text \<open>The batch keys made from the first \<open>n\<close> readings of a clock.\<close>

definition issuedKeys :: "(nat \<Rightarrow> nat) \<Rightarrow> nat \<Rightarrow> string set" where
  "issuedKeys clk n = mkBatchKey ` clk ` {..< n}"

text \<open>The active key, and every key of the namespace in the store, is such a batch key.\<close>

definition issuedOnly :: "(nat \<Rightarrow> nat) \<Rightarrow> 'e BatchedSink \<Rightarrow> bool" where
  "issuedOnly clk u =
     (clock u = clk \<and> batchKey u \<in> issuedKeys clk (reads u) \<and>
      (\<forall>st k. durableStore u = Some st \<and> inNamespace k \<and> getItem st k \<noteq> None
          \<longrightarrow> k \<in> issuedKeys clk (reads u)))"

text \<open>
  The active key is made from the latest reading of the clock, and the key of every
  waiting dispatch from an earlier one.
\<close>

definition dispatchedEarlier :: "(nat \<Rightarrow> nat) \<Rightarrow> 'e BatchedSink \<Rightarrow> bool" where
  "dispatchedEarlier clk u =
     (clock u = clk \<and> 0 < reads u \<and> batchKey u = mkBatchKey (clk (reads u - 1)) \<and>
      (\<forall>d \<in> set (pending u). \<exists>j < reads u - 1. previousBatchKey d = mkBatchKey (clk j)))"

subsection \<open>Example engines\<close>

definition exampleSink :: sink where
  "exampleSink = \<lparr>emitReply = Promise, flushReply = Promise\<rparr>"

definition exampleClock :: "nat \<Rightarrow> nat" where
  "exampleClock n = 100 + n"

text \<open>\<^verbatim>\<open>{maxSize: 3, period: 0}\<close>: the timer is off.\<close>

definition exampleOptions :: "nat BatchedSinkOptions" where
  "exampleOptions = \<lparr>optMaxSize = Some 3, optPeriod = Some (Num 0), optDurableStore = None\<rparr>"

text \<open>The engine that \<^verbatim>\<open>new BatchedSink(exampleSink, exampleOptions)\<close> builds.\<close>

definition exampleEngine :: "nat BatchedSink" where
  "exampleEngine = cycleBatch (newSink (Some exampleSink) exampleOptions exampleClock)"

text \<open>The same with a store that holds two entries of the namespace and one of another.\<close>

definition exampleStore :: "nat storage" where
  "exampleStore =
     [(''serilogger-batched-sink-durable-cache-7'', [1, 2]),
      (''theme'', [9]),
      (''serilogger-batched-sink-durable-cache-8'', [3, 4])]"

definition durableOptions :: "nat BatchedSinkOptions" where
  "durableOptions =
     \<lparr>optMaxSize = Some 3, optPeriod = Some (Num 0), optDurableStore = Some exampleStore\<rparr>"

text \<open>\<^verbatim>\<open>{maxSize: 3, period: 5}\<close> with an empty store: the timer is on.\<close>

definition timedOptions :: "nat BatchedSinkOptions" where
  "timedOptions = \<lparr>optMaxSize = Some 3, optPeriod = Some (Num 5), optDurableStore = Some []\<rparr>"

text \<open>The fresh engine without an inner sink.\<close>

definition bareEngine :: "nat BatchedSink" where
  "bareEngine = cycleBatch (newSink None exampleOptions exampleClock)"

text \<open>An event is emitted and flushed, and the dispatch fails.\<close>

definition retryScenario :: "nat BatchedSink option" where
  "retryScenario =
     Option.bind (constructor (Some exampleSink) timedOptions exampleClock)
       (run [Emit [5], Flush, Reject 0])"

text \<open>Two events are emitted, the engine is stopped and then flushed.\<close>

definition stoppedFlushScenario :: "nat BatchedSink option" where
  "stoppedFlushScenario =
     Option.bind (constructor (Some exampleSink) exampleOptions exampleClock)
       (run [Emit [1, 2], StopCycle, Flush])"

section \<open>Properties\<close>

subsection \<open>Fields that the operations keep\<close>



lemma slice_chunk:
  "0 \<le> c \<Longrightarrow> 0 < m \<Longrightarrow> slice es c (c + m) = take (nat m) (drop (nat c) es)"
  by (auto simp: slice_def Let_def min_def max_def)

lemma slice_first:
  "0 \<le> c \<Longrightarrow> slice es 0 c = take (nat c) es"
  by (auto simp: slice_def Let_def min_def max_def)

lemma cycleBatch_fixed [simp]:
  "maxSize (cycleBatch s) = maxSize s"
  "period (cycleBatch s) = period s"
  "innerSink (cycleBatch s) = innerSink s"
  "shouldCycleContinue (cycleBatch s) = shouldCycleContinue s"
  "clock (cycleBatch s) = clock s"
  "durableStore (cycleBatch s) = durableStore s"
  "flushCalls (cycleBatch s) = flushCalls s"
  "cycleCalls (cycleBatch s) = Suc (cycleCalls s)"
  by (simp_all add: cycleBatch_def Let_def clearTimeout_def dispatchBatch_def setTimeout_def
      split: option.splits)

lemma cycleBatch_batchedEvents [simp]:
  "batchedEvents (cycleBatch s) = (if shouldCycleContinue s then [] else batchedEvents s)"
  by (simp add: cycleBatch_def Let_def clearTimeout_def dispatchBatch_def setTimeout_def
      split: option.splits)

lemma cycleBatch_received:
  "received (cycleBatch s) =
     (if shouldCycleContinue s \<and> batchedEvents s \<noteq> [] \<and> innerSink s \<noteq> None
      then received s @ [batchedEvents s] else received s)"
  by (auto simp add: cycleBatch_def Let_def clearTimeout_def dispatchBatch_def setTimeout_def
      split: option.splits)

lemma cycleBatch_pending:
  "pending (cycleBatch s) =
     (if shouldCycleContinue s \<and> batchedEvents s \<noteq> []
      then pending s @ [\<lparr>processEvents = batchedEvents s, previousBatchKey = batchKey s,
             canReject = (case innerSink s of None \<Rightarrow> False
                          | Some snk \<Rightarrow> emitReply snk = Promise)\<rparr>]
      else pending s)"
  by (auto simp add: cycleBatch_def Let_def clearTimeout_def dispatchBatch_def setTimeout_def
      split: option.splits)

lemma push_fields [simp]:
  "maxSize (push es s) = maxSize s"
  "period (push es s) = period s"
  "innerSink (push es s) = innerSink s"
  "shouldCycleContinue (push es s) = shouldCycleContinue s"
  "clock (push es s) = clock s"
  "reads (push es s) = reads s"
  "durableStore (push es s) = durableStore s"
  "flushCalls (push es s) = flushCalls s"
  "cycleCalls (push es s) = cycleCalls s"
  "batchedEvents (push es s) = batchedEvents s @ es"
  "received (push es s) = received s"
  "pending (push es s) = pending s"
  "timers (push es s) = timers s"
  "batchTimeout (push es s) = batchTimeout s"
  "batchKey (push es s) = batchKey s"
  "nextTimer (push es s) = nextTimer s"
  by (simp_all add: push_def)

lemma storeEvents_fields [simp]:
  "maxSize (storeEvents s) = maxSize s"
  "period (storeEvents s) = period s"
  "innerSink (storeEvents s) = innerSink s"
  "shouldCycleContinue (storeEvents s) = shouldCycleContinue s"
  "clock (storeEvents s) = clock s"
  "reads (storeEvents s) = reads s"
  "flushCalls (storeEvents s) = flushCalls s"
  "cycleCalls (storeEvents s) = cycleCalls s"
  "batchedEvents (storeEvents s) = batchedEvents s"
  "received (storeEvents s) = received s"
  "pending (storeEvents s) = pending s"
  "timers (storeEvents s) = timers s"
  "batchTimeout (storeEvents s) = batchTimeout s"
  "batchKey (storeEvents s) = batchKey s"
  "nextTimer (storeEvents s) = nextTimer s"
  by (simp_all add: storeEvents_def split: option.splits)

lemma storeEvents_durableStore:
  "durableStore (storeEvents s) =
     map_option (\<lambda>st. setItem st (batchKey s) (batchedEvents s)) (durableStore s)"
  by (simp add: storeEvents_def split: option.splits)

text \<open>One turn of the loop.\<close>

lemma emitLoop_unfold:
  "cursor < int (length events) \<Longrightarrow>
   emitLoop events cursor s =
     emitLoop events (cursor + maxSize s)
       (storeEvents (push (slice events cursor (cursor + maxSize s)) (cycleBatch s)))"
  by (subst emitLoop.simps) (simp add: Let_def)

lemma emitLoop_done:
  "\<not> cursor < int (length events) \<Longrightarrow> emitLoop events cursor s = Some s"
  by (subst emitLoop.simps) simp


lemma cycleBatch_stopped:
  "\<not> shouldCycleContinue s \<Longrightarrow>
   cycleBatch s = clearTimeout (batchTimeout s) (s\<lparr>cycleCalls := Suc (cycleCalls s)\<rparr>)"
  by (simp add: cycleBatch_def Let_def clearTimeout_def split: option.splits)

lemma cycleBatch_stopped_fields:
  assumes "\<not> shouldCycleContinue s"
  shows "received (cycleBatch s) = received s"
    and "pending (cycleBatch s) = pending s"
    and "batchKey (cycleBatch s) = batchKey s"
    and "batchTimeout (cycleBatch s) = batchTimeout s"
    and "nextTimer (cycleBatch s) = nextTimer s"
    and "reads (cycleBatch s) = reads s"
    and "timers (cycleBatch s) =
           (case batchTimeout s of None \<Rightarrow> timers s | Some t \<Rightarrow> removeAll t (timers s))"
  using assms by (simp_all add: cycleBatch_stopped clearTimeout_def split: option.splits)

text \<open>The loop ends when \<^verbatim>\<open>maxSize\<close> is positive, after as many cycles as it takes to
  move the cursor past the events.\<close>

lemma emitLoop_returns:
  assumes "0 < maxSize s"
  shows "\<exists>s'. emitLoop es c s = Some s' \<and> maxSize s' = maxSize s \<and>
           int (cycleCalls s') =
             int (cycleCalls s) + max 0 ((int (length es) - c + maxSize s - 1) div maxSize s)"
  using assms
proof (induction "nat (int (length es) - c)" arbitrary: c s rule: less_induct)
  case less
  show ?case
  proof (cases "c < int (length es)")
    case False
    have "(int (length es) - c + maxSize s - 1) div maxSize s \<le> 0"
      using False less.prems(1)
        zdiv_mono1 [of "int (length es) - c + maxSize s - 1" "maxSize s - 1" "maxSize s"]
      by (simp add: div_pos_pos_trivial)
    with False show ?thesis
      by (simp add: emitLoop_done)
  next
    case True
    define m where "m = maxSize s"
    define t where "t = storeEvents (push (slice es c (c + m)) (cycleBatch s))"
    have m: "0 < m"
      using less.prems(1) by (simp add: m_def)
    have lt: "nat (int (length es) - (c + m)) < nat (int (length es) - c)"
      using True m by linarith
    have mt: "maxSize t = m" and cnt0: "cycleCalls t = Suc (cycleCalls s)"
      by (simp_all add: t_def m_def)
    have pre: "0 < maxSize t"
      using m mt by simp
    from less.hyps [OF lt pre] obtain s' where
      run: "emitLoop es (c + m) t = Some s'" and
      kept: "maxSize s' = maxSize t" and
      cnt: "int (cycleCalls s') =
             int (cycleCalls t) + max 0 ((int (length es) - (c + m) + maxSize t - 1) div maxSize t)"
      by blast
    have c1: "emitLoop es c s = Some s'"
      using run True by (simp add: emitLoop_unfold t_def m_def)
    have "(int (length es) - c + m - 1) div m = (int (length es) - (c + m) + m - 1) div m + 1"
      using m div_add_self2 [of m "int (length es) - (c + m) + m - 1"]
      by (simp add: algebra_simps)
    moreover have "0 \<le> (int (length es) - (c + m) + m - 1) div m"
      using True m by (simp add: pos_imp_zdiv_nonneg_iff)
    ultimately have c5: "int (cycleCalls s') =
        int (cycleCalls s) + max 0 ((int (length es) - c + m - 1) div m)"
      using cnt cnt0 by (simp add: mt)
    show ?thesis
      using c1 c5 kept mt by (intro exI [of _ s']) (simp add: m_def)
  qed
qed

text \<open>A running engine: every cycle of the loop dispatches the buffer, and the events
  are neither lost nor repeated.\<close>

lemma emitLoop_running:
  assumes "0 < maxSize s" and "shouldCycleContinue s" and "0 \<le> c"
  shows "\<exists>s' ds. emitLoop es c s = Some s' \<and>
           pending s' = pending s @ ds \<and>
           received s' =
             received s @ (if innerSink s = None then [] else map processEvents ds) \<and>
           concat (map processEvents ds) @ batchedEvents s' =
             batchedEvents s @ drop (nat c) es \<and>
           (\<forall>d \<in> set ds. int (length (processEvents d))
               \<le> max (int (length (batchedEvents s))) (maxSize s)) \<and>
           shouldCycleContinue s' \<and> innerSink s' = innerSink s"
  using assms
proof (induction "nat (int (length es) - c)" arbitrary: c s rule: less_induct)
  case less
  show ?case
  proof (cases "c < int (length es)")
    case False
    with less.prems show ?thesis
      by (simp add: emitLoop_done)
  next
    case True
    define m where "m = maxSize s"
    define t where "t = storeEvents (push (slice es c (c + m)) (cycleBatch s))"
    define d0 where "d0 = (if batchedEvents s \<noteq> [] then
        [\<lparr>processEvents = batchedEvents s, previousBatchKey = batchKey s,
          canReject = (case innerSink s of None \<Rightarrow> False
                       | Some snk \<Rightarrow> emitReply snk = Promise)\<rparr>] else [])"
    have m: "0 < m"
      using less.prems(1) by (simp add: m_def)
    have lt: "nat (int (length es) - (c + m)) < nat (int (length es) - c)"
      using True m by linarith
    have mt: "maxSize t = m" and sink_t: "innerSink t = innerSink s"
      by (simp_all add: t_def m_def)
    have pre: "0 < maxSize t" "shouldCycleContinue t" "0 \<le> c + m"
      using less.prems m by (simp_all add: t_def m_def)
    have buf: "batchedEvents t = take (nat m) (drop (nat c) es)"
      using less.prems m by (simp add: t_def slice_chunk)
    have pen0: "pending t = pending s @ d0"
      using less.prems by (simp add: t_def d0_def cycleBatch_pending)
    have rec0: "received t =
        received s @ (if innerSink s = None then [] else map processEvents d0)"
      using less.prems by (simp add: t_def d0_def cycleBatch_received)
    from less.hyps [OF lt pre] obtain s' ds where
      run: "emitLoop es (c + m) t = Some s'" and
      pen: "pending s' = pending t @ ds" and
      rec: "received s' =
              received t @ (if innerSink t = None then [] else map processEvents ds)" and
      cat: "concat (map processEvents ds) @ batchedEvents s' =
              batchedEvents t @ drop (nat (c + m)) es" and
      bnd: "\<forall>d \<in> set ds. int (length (processEvents d))
              \<le> max (int (length (batchedEvents t))) (maxSize t)" and
      kept: "shouldCycleContinue s'" "innerSink s' = innerSink t"
      by blast
    have drp: "drop (nat (c + m)) es = drop (nat m) (drop (nat c) es)"
      using less.prems m by (simp add: nat_add_distrib add.commute)
    have whole: "batchedEvents t @ drop (nat (c + m)) es = drop (nat c) es"
      unfolding buf drp by (rule append_take_drop_id)
    have c1: "emitLoop es c s = Some s'"
      using run True by (simp add: emitLoop_unfold t_def m_def)
    have c2: "pending s' = pending s @ (d0 @ ds)"
      using pen pen0 by simp
    have c2': "received s' =
        received s @ (if innerSink s = None then [] else map processEvents (d0 @ ds))"
      using rec rec0 sink_t by simp
    have "concat (map processEvents d0) = batchedEvents s"
      by (simp add: d0_def)
    then have c3: "concat (map processEvents (d0 @ ds)) @ batchedEvents s' =
        batchedEvents s @ drop (nat c) es"
      using cat whole by simp
    have "\<forall>d \<in> set ds. int (length (processEvents d)) \<le> m"
      using bnd m by (auto simp: buf mt)
    then have c4: "\<forall>d \<in> set (d0 @ ds). int (length (processEvents d))
        \<le> max (int (length (batchedEvents s))) m"
      by (auto simp: d0_def)
    show ?thesis
      using c1 c2 c2' c3 c4 kept sink_t
      by (intro exI [of _ s'] exI [of _ "d0 @ ds"]) (simp add: m_def)
  qed
qed

text \<open>A stopped engine: the cycles of the loop dispatch nothing, and the buffer grows.\<close>

lemma emitLoop_stopped:
  assumes "0 < maxSize s" and "\<not> shouldCycleContinue s" and "0 \<le> c"
  shows "\<exists>s'. emitLoop es c s = Some s' \<and>
           batchedEvents s' = batchedEvents s @ drop (nat c) es \<and>
           pending s' = pending s \<and> received s' = received s \<and>
           \<not> shouldCycleContinue s'"
  using assms
proof (induction "nat (int (length es) - c)" arbitrary: c s rule: less_induct)
  case less
  show ?case
  proof (cases "c < int (length es)")
    case False
    with less.prems show ?thesis
      by (simp add: emitLoop_done)
  next
    case True
    define m where "m = maxSize s"
    define t where "t = storeEvents (push (slice es c (c + m)) (cycleBatch s))"
    have m: "0 < m"
      using less.prems(1) by (simp add: m_def)
    have lt: "nat (int (length es) - (c + m)) < nat (int (length es) - c)"
      using True m by linarith
    have pre: "0 < maxSize t" "\<not> shouldCycleContinue t" "0 \<le> c + m"
      using less.prems m by (simp_all add: t_def m_def)
    have buf: "batchedEvents t = batchedEvents s @ take (nat m) (drop (nat c) es)"
      using less.prems m by (simp add: t_def slice_chunk)
    have same: "pending t = pending s" "received t = received s"
      using less.prems by (simp_all add: t_def cycleBatch_stopped_fields)
    from less.hyps [OF lt pre] obtain s' where
      run: "emitLoop es (c + m) t = Some s'" and
      cat: "batchedEvents s' = batchedEvents t @ drop (nat (c + m)) es" and
      kept: "pending s' = pending t" "received s' = received t" "\<not> shouldCycleContinue s'"
      by blast
    have drp: "drop (nat (c + m)) es = drop (nat m) (drop (nat c) es)"
      using less.prems m by (simp add: nat_add_distrib add.commute)
    have "take (nat m) (drop (nat c) es) @ drop (nat (c + m)) es = drop (nat c) es"
      unfolding drp by (rule append_take_drop_id)
    then have c2: "batchedEvents s' = batchedEvents s @ drop (nat c) es"
      using cat buf by simp
    have c1: "emitLoop es c s = Some s'"
      using run True by (simp add: emitLoop_unfold t_def m_def)
    show ?thesis
      using c1 c2 kept same by simp
  qed
qed

text \<open>What every turn of the loop keeps, the loop keeps, whether it is known to end or not.\<close>

lemma emitLoop_invariant:
  assumes "emitLoop es c s = Some s'" and "I s"
    and "\<And>xs s. I s \<Longrightarrow> I (storeEvents (push xs (cycleBatch s)))"
  shows "I s'"
proof -
  have "I s \<longrightarrow> I s'"
  proof (rule emitLoop.raw_induct [where P = "\<lambda>es c s y. I s \<longrightarrow> I y", OF _ assms(1)])
    fix f :: "'a list \<Rightarrow> int \<Rightarrow> 'a BatchedSink \<Rightarrow> 'a BatchedSink option"
    fix es c s y
    assume IH: "\<And>es c s y. f es c s = Some y \<Longrightarrow> I s \<longrightarrow> I y"
    assume eq: "(if c < int (length es)
          then let s1 = cycleBatch s; cursor' = c + maxSize s1;
                   s2 = push (slice es c cursor') s1
               in f es cursor' (storeEvents s2)
          else Some s) = Some y"
    show "I s \<longrightarrow> I y"
    proof (cases "c < int (length es)")
      case True
      with eq have "f es (c + maxSize s)
          (storeEvents (push (slice es c (c + maxSize s)) (cycleBatch s))) = Some y"
        by (simp add: Let_def)
      from IH [OF this] assms(3) show ?thesis
        by blast
    next
      case False
      with eq show ?thesis
        by simp
    qed
  qed
  with assms(2) show ?thesis
    by blast
qed

lemma emit_invariant:
  assumes "emit es s = Some (r, s')" and "I s"
    and "\<And>s. I s \<Longrightarrow> I (cycleBatch s)"
    and "\<And>xs s. I s \<Longrightarrow> I (storeEvents (push xs s))"
  shows "I s'"
proof (cases "int (length (batchedEvents s)) + int (length es) \<le> maxSize s")
  case True
  with assms(1) have "s' = storeEvents (push es s)"
    by (auto simp add: emit_def)
  with assms(2,4) show ?thesis
    by simp
next
  case False
  define c where "c = (if maxSize s - int (length (batchedEvents s)) < 0 then 0
                      else maxSize s - int (length (batchedEvents s)))"
  define s1 where "s1 = storeEvents (push (slice es 0 c) s)"
  from False assms(1) have loop: "emitLoop es c s1 = Some s'"
    by (auto simp add: emit_def Let_def c_def s1_def)
  have start: "I s1"
    using assms(2,4) by (simp add: s1_def)
  have turn: "\<And>xs s. I s \<Longrightarrow> I (storeEvents (push xs (cycleBatch s)))"
    using assms(3,4) by simp
  from loop start turn show ?thesis
    by (rule emitLoop_invariant)
qed

lemma step_invariant:
  assumes "step a s = Some s'" and "I s"
    and "\<And>s. I s \<Longrightarrow> I (cycleBatch s)"
    and "\<And>xs s. I s \<Longrightarrow> I (storeEvents (push xs s))"
    and "\<And>s. I s \<Longrightarrow> I (stopCycle s)"
    and "\<And>t s. I s \<Longrightarrow> I (s\<lparr>timers := removeAll t (timers s)\<rparr>)"
    and "\<And>i s. I s \<Longrightarrow> I (onFulfilled i s)"
    and "\<And>i s. I s \<Longrightarrow> I (onRejected i s)"
    and "\<And>s. I s \<Longrightarrow> I (snd (flushCore s))"
  shows "I s'"
proof (cases a)
  case (Emit es)
  with assms(1) obtain r where "emit es s = Some (r, s')"
    by auto
  from this assms(2,3,4) show ?thesis
    by (rule emit_invariant)
next
  case Flush
  with assms(1) have "s' = snd (flushCore (cycleBatch s))"
    by (simp add: flush_def Let_def split: prod.splits)
  with assms(2,3,9) show ?thesis
    by simp
next
  case StopCycle
  with assms(1,2,5) show ?thesis
    by auto
next
  case (TimerFires t)
  with assms(1) have "s' = cycleBatch (s\<lparr>timers := removeAll t (timers s)\<rparr>)"
    by (simp add: timerFires_def split: if_splits)
  with assms(2,3,6) show ?thesis
    by simp
next
  case (Fulfil i)
  with assms(1,2,7) show ?thesis
    by (auto split: if_splits)
next
  case (Reject i)
  with assms(1,2,8) show ?thesis
    by (auto split: if_splits)
qed

lemma run_invariant:
  assumes "run as s = Some s'" and "I s"
    and "\<And>s. I s \<Longrightarrow> I (cycleBatch s)"
    and "\<And>xs s. I s \<Longrightarrow> I (storeEvents (push xs s))"
    and "\<And>s. I s \<Longrightarrow> I (stopCycle s)"
    and "\<And>t s. I s \<Longrightarrow> I (s\<lparr>timers := removeAll t (timers s)\<rparr>)"
    and "\<And>i s. I s \<Longrightarrow> I (onFulfilled i s)"
    and "\<And>i s. I s \<Longrightarrow> I (onRejected i s)"
    and "\<And>s. I s \<Longrightarrow> I (snd (flushCore s))"
  shows "I s'"
  using assms(1,2)
proof (induction as arbitrary: s)
  case Nil
  then show ?case
    by simp
next
  case (Cons a as)
  from Cons.prems(1) obtain s1 where s1: "step a s = Some s1" and rest: "run as s1 = Some s'"
    by (auto split: option.splits)
  from s1 Cons.prems(2) assms(3-9) have "I s1"
    by (rule step_invariant)
  with rest show ?case
    by (rule Cons.IH)
qed

subsection \<open>Counting the turns of the loop\<close>

lemma ceiling_div_int:
  fixes x m :: int
  assumes "0 < m" and "0 \<le> x"
  shows "max 0 ((x + m - 1) div m) = \<lceil>real_of_int x / real_of_int m\<rceil>"
proof -
  define z where "z = (x + m - 1) div m"
  have eq: "z * m + (x + m - 1) mod m = x + m - 1"
    unfolding z_def by (rule div_mult_mod_eq)
  have lo: "0 \<le> (x + m - 1) mod m" and hi: "(x + m - 1) mod m < m"
    using assms(1) by simp_all
  have "(z - 1) * m = z * m - m"
    by (simp add: algebra_simps)
  then have a: "(z - 1) * m < x"
    using eq lo by linarith
  have b: "x \<le> z * m"
    using eq hi by linarith
  have "0 \<le> z"
    unfolding z_def using assms by (simp add: pos_imp_zdiv_nonneg_iff)
  have "real_of_int ((z - 1) * m) < real_of_int x"
    using a by (simp only: of_int_less_iff)
  then have a': "real_of_int z - 1 < real_of_int x / real_of_int m"
    using assms(1) by (simp add: field_simps)
  have "real_of_int x \<le> real_of_int (z * m)"
    using b by (simp only: of_int_le_iff)
  then have b': "real_of_int x / real_of_int m \<le> real_of_int z"
    using assms(1) by (simp add: field_simps)
  have "\<lceil>real_of_int x / real_of_int m\<rceil> = z"
    using a' b' by (rule ceiling_unique)
  with \<open>0 \<le> z\<close> show ?thesis
    by (simp add: z_def)
qed

subsection \<open>What \<^verbatim>\<open>emit\<close> returns\<close>

text \<open>\<^verbatim>\<open>emit\<close> ends when \<^verbatim>\<open>maxSize\<close> is positive, and this is how often it cycles.\<close>

lemma emit_total:
  assumes "0 < maxSize s"
  shows "\<exists>s'. emit es s = Some (es, s') \<and>
           (int (length (batchedEvents s)) + int (length es) \<le> maxSize s
              \<longrightarrow> cycleCalls s' = cycleCalls s) \<and>
           (maxSize s < int (length (batchedEvents s)) + int (length es)
              \<longrightarrow> int (cycleCalls s') - int (cycleCalls s) =
                \<lceil>real_of_int (int (length es)
                      - max 0 (maxSize s - int (length (batchedEvents s))))
                   / real_of_int (maxSize s)\<rceil>)"
proof (cases "int (length (batchedEvents s)) + int (length es) \<le> maxSize s")
  case True
  then show ?thesis
    by (simp add: emit_def)
next
  case False
  define c where "c = (if maxSize s - int (length (batchedEvents s)) < 0 then 0
                      else maxSize s - int (length (batchedEvents s)))"
  have c: "c = max 0 (maxSize s - int (length (batchedEvents s)))"
    by (simp add: c_def)
  define s1 where "s1 = storeEvents (push (slice es 0 c) s)"
  have m1: "0 < maxSize s1" "maxSize s1 = maxSize s" "cycleCalls s1 = cycleCalls s"
    using assms by (simp_all add: s1_def)
  from emitLoop_returns [OF m1(1)] obtain s' where
    loop: "emitLoop es c s1 = Some s'" and
    cnt: "int (cycleCalls s') = int (cycleCalls s1)
            + max 0 ((int (length es) - c + maxSize s1 - 1) div maxSize s1)"
    by blast
  have "0 \<le> int (length es) - c"
    using False by (simp add: c_def)
  from ceiling_div_int [OF assms this]
  have "int (cycleCalls s') - int (cycleCalls s) =
      \<lceil>real_of_int (int (length es) - c) / real_of_int (maxSize s)\<rceil>"
    using cnt m1 by simp
  moreover have "emit es s = Some (es, s')"
    using False loop by (simp add: emit_def Let_def c_def s1_def)
  ultimately show ?thesis
    using False by (simp add: c)
qed

text \<open>
  C6. With a positive \<^verbatim>\<open>maxSize\<close>, \<^verbatim>\<open>emit(events)\<close> returns for every sequence of
  events, whatever its length, and returns the sequence it was given; no branch of it
  raises. A burst that does not fit is worked off in forced cycles: none when the events
  fit in the buffer, and otherwise as many as it takes to move the cursor, \<^verbatim>\<open>maxSize\<close>
  at a time, from where the buffer was full to the end of the events.
\<close>

theorem emit_returns_events:
  assumes "0 < maxSize s"
  shows "\<exists>s'. emit es s = Some (es, s') \<and>
           (int (length (batchedEvents s)) + int (length es) \<le> maxSize s
              \<longrightarrow> cycleCalls s' = cycleCalls s) \<and>
           (maxSize s < int (length (batchedEvents s)) + int (length es)
              \<longrightarrow> int (cycleCalls s') - int (cycleCalls s) =
                \<lceil>real_of_int (int (length es)
                      - max 0 (maxSize s - int (length (batchedEvents s))))
                   / real_of_int (maxSize s)\<rceil>)"
  using assms by (rule emit_total)

theorem emit_returns_events_witness:
  "0 < maxSize exampleEngine \<and>
   int (length (batchedEvents exampleEngine)) + int (length [1 :: nat]) \<le> maxSize exampleEngine \<and>
   maxSize exampleEngine
     < int (length (batchedEvents exampleEngine)) + int (length [1, 2, 3, 4, 5 :: nat]) \<and>
   (\<exists>s'. emit [1] exampleEngine = Some ([1], s') \<and> cycleCalls s' = cycleCalls exampleEngine) \<and>
   (\<exists>s'. emit [1, 2, 3, 4, 5] exampleEngine = Some ([1, 2, 3, 4, 5], s') \<and>
      int (cycleCalls s') - int (cycleCalls exampleEngine) = 1)"
proof -
  have h: "0 < maxSize exampleEngine"
    "int (length (batchedEvents exampleEngine)) + int (length [1 :: nat]) \<le> maxSize exampleEngine"
    "maxSize exampleEngine
       < int (length (batchedEvents exampleEngine)) + int (length [1, 2, 3, 4, 5 :: nat])"
    by (simp_all add: exampleEngine_def newSink_def exampleOptions_def)
  have v: "maxSize exampleEngine = 3" "batchedEvents exampleEngine = []"
    by (simp_all add: exampleEngine_def newSink_def exampleOptions_def)
  from emit_returns_events [OF h(1), of "[1]"] h(2)
  have a: "\<exists>s'. emit [1] exampleEngine = Some ([1], s') \<and> cycleCalls s' = cycleCalls exampleEngine"
    by blast
  from emit_returns_events [OF h(1), of "[1, 2, 3, 4, 5]"] h(3)
  have b: "\<exists>s'. emit [1, 2, 3, 4, 5] exampleEngine = Some ([1, 2, 3, 4, 5], s') \<and>
      int (cycleCalls s') - int (cycleCalls exampleEngine) = 1"
    by (simp add: v)
  from h a b show ?thesis
    by (intro conjI)
qed

subsection \<open>Unfolding the engine on given values\<close>

lemmas engine_defs = constructor_def newSink_def cycleBatch_def clearTimeout_def setTimeout_def
  dispatchBatch_def push_def storeEvents_def emit_def flush_def flushCore_def stopCycle_def
  onFulfilled_def onRejected_def timerFires_def slice_def Let_def forcedCycles_def
  defaultMaxSize_def defaultPeriod_def instanceofPromise_def

lemma constructor_example: "constructor (Some exampleSink) exampleOptions exampleClock = Some exampleEngine"
  by (simp add: constructor_def exampleEngine_def newSink_def exampleOptions_def)


subsection \<open>An \<^verbatim>\<open>emit\<close> that overflows\<close>



subsection \<open>The burst of five\<close>

text \<open>
  C9, as stated, fails: with \<^verbatim>\<open>maxSize = 3\<close> and the timer off, \<^verbatim>\<open>emit\<close> of five events
  on the fresh engine calls \<^verbatim>\<open>cycleBatch\<close> once, not twice.
\<close>

theorem burst_forced_cycles_counterexample:
  "Option.bind (constructor (Some exampleSink) exampleOptions exampleClock)
     (forcedCycles [1, 2, 3, 4, 5]) = Some 1"
  by code_simp

text \<open>
  C9, amended. An engine is built with \<^verbatim>\<open>maxSize = 3\<close>, an inner sink and no store; its
  buffer is empty and the sink has received nothing. Then \<^verbatim>\<open>emit([e1,e2,e3,e4,e5])\<close>
  forces one cycle, which hands \<open>[e1, e2, e3]\<close> to the inner sink and leaves
  \<open>[e4, e5]\<close> in the buffer; a \<^verbatim>\<open>flush()\<close> afterwards is the second cycle and hands
  \<open>[e4, e5]\<close> to the sink. This holds for every \<^verbatim>\<open>period\<close>, the disabled ones among
  them.
\<close>

theorem burst_then_flush:
  "\<exists>s0 s1. constructor (Some snk) \<lparr>optMaxSize = Some 3, optPeriod = Some p, optDurableStore = None\<rparr> clk = Some s0 \<and>
     received s0 = [] \<and> batchedEvents s0 = [] \<and>
     emit [e1, e2, e3, e4, e5] s0 = Some ([e1, e2, e3, e4, e5], s1) \<and>
     forcedCycles [e1, e2, e3, e4, e5] s0 = Some 1 \<and>
     received s1 = [ [e1, e2, e3] ] \<and> batchedEvents s1 = [e4, e5] \<and>
     received (snd (flush s1)) = [ [e1, e2, e3], [e4, e5] ] \<and>
     batchedEvents (snd (flush s1)) = [] \<and>
     cycleCalls (snd (flush s1)) = Suc (cycleCalls s1)"
  by (simp add: engine_defs emitLoop.simps split: option.splits)

subsection \<open>\<^verbatim>\<open>emit\<close> on a stopped engine\<close>

text \<open>
  C10. After \<^verbatim>\<open>stopCycle()\<close> the flag \<^verbatim>\<open>shouldCycleContinue\<close> is off. A cycle is then
  \<^verbatim>\<open>clearTimeout\<close> and nothing more. So an \<^verbatim>\<open>emit\<close> that overflows (with a positive
  \<^verbatim>\<open>maxSize\<close>) returns with all its events appended to the one buffer, which is then
  longer than \<^verbatim>\<open>maxSize\<close>; nothing is handed to the inner sink and no continuation is
  added, although the loop does call \<^verbatim>\<open>cycleBatch\<close> when there are events.
\<close>

theorem emit_after_stop:
  assumes "0 < maxSize s" and "\<not> shouldCycleContinue s"
    and "maxSize s < int (length (batchedEvents s)) + int (length es)"
  shows "\<exists>s'. emit es s = Some (es, s') \<and>
           batchedEvents s' = batchedEvents s @ es \<and>
           maxSize s < int (length (batchedEvents s')) \<and>
           received s' = received s \<and> pending s' = pending s \<and>
           (es \<noteq> [] \<longrightarrow> cycleCalls s < cycleCalls s') \<and>
           cycleBatch s = clearTimeout (batchTimeout s) (s\<lparr>cycleCalls := Suc (cycleCalls s)\<rparr>)"
proof -
  define c where "c = (if maxSize s - int (length (batchedEvents s)) < 0 then 0
                      else maxSize s - int (length (batchedEvents s)))"
  define s1 where "s1 = storeEvents (push (slice es 0 c) s)"
  have c: "0 \<le> c" "c < int (length es) \<or> es = []"
    using assms(3) by (auto simp add: c_def)
  have pre: "0 < maxSize s1" "\<not> shouldCycleContinue s1" "0 \<le> c"
    using assms c by (simp_all add: s1_def)
  have buf1: "batchedEvents s1 = batchedEvents s @ take (nat c) es"
    using c by (simp add: s1_def slice_first)
  from emitLoop_stopped [OF pre, where es = es] obtain s' where
    loop: "emitLoop es c s1 = Some s'" and
    cat: "batchedEvents s' = batchedEvents s1 @ drop (nat c) es" and
    kept: "pending s' = pending s1" "received s' = received s1" and
    halt: "\<not> shouldCycleContinue s'"
    by (elim exE conjE)
  have e1: "emit es s = Some (es, s')"
    using assms(3) loop by (simp add: emit_def Let_def c_def s1_def)
  have e2: "batchedEvents s' = batchedEvents s @ es"
    using cat by (simp add: buf1)
  from emit_total [OF assms(1), of es] e1 assms(3)
  have cnt: "int (cycleCalls s') - int (cycleCalls s) =
      \<lceil>real_of_int (int (length es) - max 0 (maxSize s - int (length (batchedEvents s))))
         / real_of_int (maxSize s)\<rceil>"
    by simp
  have "0 < real_of_int (int (length es) - max 0 (maxSize s - int (length (batchedEvents s))))
         / real_of_int (maxSize s)" if "es \<noteq> []"
    using that assms(1,3) by (simp add: max_def)
  then have e3: "es \<noteq> [] \<longrightarrow> cycleCalls s < cycleCalls s'"
    using cnt by (simp only: flip: zero_less_ceiling) linarith
  have e4: "maxSize s < int (length (batchedEvents s'))"
    using assms(3) by (simp add: e2)
  have e5: "received s' = received s" "pending s' = pending s"
    using kept by (simp_all add: s1_def)
  from e1 e2 e3 e4 e5 cycleBatch_stopped [OF assms(2)] show ?thesis
    by blast
qed

text \<open>The fresh engine is stopped and then given five events.\<close>

theorem emit_after_stop_witness:
  "0 < maxSize (stopCycle exampleEngine) \<and> \<not> shouldCycleContinue (stopCycle exampleEngine) \<and>
   maxSize (stopCycle exampleEngine)
     < int (length (batchedEvents (stopCycle exampleEngine))) + int (length [1, 2, 3, 4, 5 :: nat]) \<and>
   (\<exists>s'. emit [1, 2, 3, 4, 5] (stopCycle exampleEngine) = Some ([1, 2, 3, 4, 5], s') \<and>
      batchedEvents s' = [1, 2, 3, 4, 5] \<and> received s' = [] \<and>
      cycleCalls (stopCycle exampleEngine) < cycleCalls s')"
proof -
  have h: "0 < maxSize (stopCycle exampleEngine)"
    "\<not> shouldCycleContinue (stopCycle exampleEngine)"
    "maxSize (stopCycle exampleEngine)
       < int (length (batchedEvents (stopCycle exampleEngine))) + int (length [1, 2, 3, 4, 5 :: nat])"
    by (simp_all add: exampleEngine_def newSink_def exampleOptions_def stopCycle_def
        clearTimeout_def split: option.splits)
  have e: "batchedEvents (stopCycle exampleEngine) = []" "received (stopCycle exampleEngine) = []"
    by (simp_all add: exampleEngine_def newSink_def exampleOptions_def stopCycle_def
        clearTimeout_def cycleBatch_received split: option.splits)
  from emit_after_stop [OF h] h e show ?thesis
    by auto
qed

text \<open>The scenario of C9 on the numbers one to five.\<close>

theorem burst_then_flush_witness:
  "\<exists>s0 s1. constructor (Some exampleSink)
       \<lparr>optMaxSize = Some 3, optPeriod = Some (Num 0), optDurableStore = None\<rparr> exampleClock
       = Some s0 \<and>
     emit [1, 2, 3, 4, 5 :: nat] s0 = Some ([1, 2, 3, 4, 5], s1) \<and>
     forcedCycles [1, 2, 3, 4, 5] s0 = Some 1 \<and>
     received s1 = [ [1, 2, 3] ] \<and>
     received (snd (flush s1)) = [ [1, 2, 3], [4, 5] ]"
  using burst_then_flush [of exampleSink "Num 0" exampleClock 1 2 3 4 "5 :: nat"]
  by blast

subsection \<open>Invariants of runs\<close>

lemma flushCore_fields [simp]:
  "batchedEvents (snd (flushCore s)) = batchedEvents s"
  "received (snd (flushCore s)) = received s"
  "pending (snd (flushCore s)) = pending s"
  "durableStore (snd (flushCore s)) = durableStore s"
  "timers (snd (flushCore s)) = timers s"
  "batchTimeout (snd (flushCore s)) = batchTimeout s"
  "shouldCycleContinue (snd (flushCore s)) = shouldCycleContinue s"
  "cycleCalls (snd (flushCore s)) = cycleCalls s"
  "batchKey (snd (flushCore s)) = batchKey s"
  by (simp_all add: flushCore_def split: option.splits)

lemma flush_state: "snd (flush s) = snd (flushCore (cycleBatch s))"
  by (simp add: flush_def Let_def split: prod.splits)

lemma run_keeps_stopped:
  assumes "run as s = Some s'" and "\<not> shouldCycleContinue s"
  shows "\<not> shouldCycleContinue s'"
  using assms
  by (rule run_invariant)
     (simp_all add: stopCycle_def clearTimeout_def onFulfilled_def onRejected_def Let_def
        split: option.splits)

lemma run_keeps_halted:
  assumes "run as s = Some s'" and "\<not> shouldCycleContinue s \<and> timers s = []"
  shows "\<not> shouldCycleContinue s' \<and> timers s' = []"
  using assms
  by (rule run_invariant)
     (simp_all add: stopCycle_def clearTimeout_def onFulfilled_def onRejected_def Let_def
        cycleBatch_stopped_fields split: option.splits)

lemma halted_no_timer:
  assumes "run as s = Some s'" and "\<not> shouldCycleContinue s \<and> timers s = []"
  shows "TimerFires t \<notin> set as"
  using assms
proof (induction as arbitrary: s)
  case Nil
  then show ?case
    by simp
next
  case (Cons a as)
  from Cons.prems(1) obtain s1 where s1: "step a s = Some s1" and rest: "run as s1 = Some s'"
    by (auto split: option.splits)
  have "run [a] s = Some s1"
    using s1 by simp
  from this Cons.prems(2) have "\<not> shouldCycleContinue s1 \<and> timers s1 = []"
    by (rule run_keeps_halted)
  with rest have "TimerFires t \<notin> set as"
    by (rule Cons.IH)
  moreover have "a \<noteq> TimerFires t"
    using s1 Cons.prems(2) by auto
  ultimately show ?case
    by simp
qed

lemma timersOwned_cycleBatch: "timersOwned s \<Longrightarrow> timersOwned (cycleBatch s)"
  by (auto simp add: timersOwned_def cycleBatch_def Let_def clearTimeout_def dispatchBatch_def
      setTimeout_def split: option.splits)

lemma run_keeps_timersOwned:
  assumes "run as s = Some s'" and "timersOwned s"
  shows "timersOwned s'"
  using assms
proof (rule run_invariant)
  show "\<And>s. timersOwned s \<Longrightarrow> timersOwned (cycleBatch s)"
    by (rule timersOwned_cycleBatch)
qed (auto simp add: timersOwned_def stopCycle_def clearTimeout_def onFulfilled_def
      onRejected_def Let_def split: option.splits)

lemma constructor_timersOwned:
  assumes "constructor snk opts clk = Some s"
  shows "timersOwned s"
proof -
  define s1 where "s1 = cycleBatch (newSink snk opts clk)"
  have "timersOwned (newSink snk opts clk)"
    by (simp add: timersOwned_def newSink_def)
  then have own1: "timersOwned s1"
    unfolding s1_def by (rule timersOwned_cycleBatch)
  show ?thesis
  proof (cases "durableStore s1")
    case None
    with assms own1 show ?thesis
      by (simp add: constructor_def s1_def)
  next
    case (Some st)
    define b where "b = fst (rehydrate (map fst st) ([], st))"
    define st' where "st' = snd (rehydrate (map fst st) ([], st))"
    from assms Some obtain r where e: "emit b (s1\<lparr>durableStore := Some st'\<rparr>) = Some (r, s)"
      by (auto simp add: constructor_def s1_def b_def st'_def Let_def split: prod.splits)
    have "timersOwned (s1\<lparr>durableStore := Some st'\<rparr>)"
      using own1 by (simp add: timersOwned_def)
    with e show ?thesis
    proof (rule emit_invariant)
      show "\<And>s. timersOwned s \<Longrightarrow> timersOwned (cycleBatch s)"
        by (rule timersOwned_cycleBatch)
    qed (simp add: timersOwned_def)
  qed
qed

lemma stopCycle_halts:
  "timersOwned s \<Longrightarrow> \<not> shouldCycleContinue (stopCycle s) \<and> timers (stopCycle s) = []"
  by (cases "batchTimeout s")
     (auto simp add: timersOwned_def stopCycle_def clearTimeout_def removeAll_filter_not_eq
        filter_empty_conv)

subsection \<open>Stopping\<close>

text \<open>
  C8. Take any engine the constructor has built and any run of it. Calling
  \<^verbatim>\<open>stopCycle()\<close> twice gives the state that calling it once gives. After the call no
  timeout is armed, and none is armed at the end of any further run; so no run after
  the call contains a timer callback: the step \<open>TimerFires t\<close> needs \<open>t\<close> to be armed.
\<close>

theorem stop_is_final:
  assumes "constructor snk opts clk = Some s0"
    and "run before s0 = Some s"
    and "run after (stopCycle s) = Some s'"
  shows "stopCycle (stopCycle s) = stopCycle s \<and>
         timers (stopCycle s) = [] \<and> timers s' = [] \<and> \<not> shouldCycleContinue s' \<and>
         (\<forall>t. TimerFires t \<notin> set after)"
proof -
  have "timersOwned s0"
    using assms(1) by (rule constructor_timersOwned)
  with assms(2) have "timersOwned s"
    by (rule run_keeps_timersOwned)
  then have halted: "\<not> shouldCycleContinue (stopCycle s) \<and> timers (stopCycle s) = []"
    by (rule stopCycle_halts)
  from assms(3) halted have end_state: "\<not> shouldCycleContinue s' \<and> timers s' = []"
    by (rule run_keeps_halted)
  have quiet: "\<forall>t. TimerFires t \<notin> set after"
    by (intro allI) (rule halted_no_timer [OF assms(3) halted])
  have "stopCycle (stopCycle s) = stopCycle s"
    by (simp add: stopCycle_def clearTimeout_def split: option.splits)
  with halted end_state quiet show ?thesis
    by blast
qed

text \<open>An engine with \<^verbatim>\<open>period = 5\<close>: its timer fires once, it is stopped, and it runs on.\<close>

theorem stop_is_final_witness:
  "\<exists>s0 s s'. constructor (Some exampleSink) timedOptions exampleClock = Some s0 \<and>
     run [Emit [5], TimerFires 1] s0 = Some s \<and>
     run [Emit [6, 7, 8, 9], Flush, Fulfil 0] (stopCycle s) = Some s' \<and>
     stopCycle (stopCycle s) = stopCycle s \<and> timers s' = [] \<and>
     (\<forall>t. TimerFires t \<notin> set [Emit [6, 7, 8, 9], Flush, Fulfil 0 :: nat action])"
proof -
  have "Option.bind
      (Option.bind (constructor (Some exampleSink) timedOptions exampleClock)
         (run [Emit [5], TimerFires 1]))
      (run [Emit [6, 7, 8, 9], Flush, Fulfil 0] \<circ> stopCycle) \<noteq> None"
    by code_simp
  then obtain s0 s s' where
    h: "constructor (Some exampleSink) timedOptions exampleClock = Some s0"
      "run [Emit [5], TimerFires 1] s0 = Some s"
      "run [Emit [6, 7, 8, 9], Flush, Fulfil 0] (stopCycle s) = Some s'"
    by (auto simp add: bind_eq_Some_conv)
  from stop_is_final [OF h] h show ?thesis
    by blast
qed

text \<open>
  C4, as stated, fails. Two events are emitted, the engine is stopped, and \<^verbatim>\<open>flush()\<close> is
  called: the inner sink has received nothing and the two events are still in the buffer.
\<close>

theorem flush_after_stop_counterexample:
  "map_option received stoppedFlushScenario = Some [] \<and>
   map_option batchedEvents stoppedFlushScenario = Some [1, 2]"
  by code_simp

text \<open>
  C4, amended. At any time after \<^verbatim>\<open>stopCycle()\<close> a cycle cancels the timeout whose handle
  the engine holds, arms no new one and returns: this is the last state of the timer.
  The cycle does not drain the buffer, so a \<^verbatim>\<open>flush()\<close> after the stop hands nothing to
  the inner sink and leaves the buffer, the waiting continuations and the store as they
  are.
\<close>

theorem cycle_after_stop:
  assumes "run as (stopCycle s0) = Some s"
  shows "\<not> shouldCycleContinue s \<and>
         cycleBatch s = clearTimeout (batchTimeout s) (s\<lparr>cycleCalls := Suc (cycleCalls s)\<rparr>) \<and>
         nextTimer (cycleBatch s) = nextTimer s \<and>
         batchTimeout (cycleBatch s) = batchTimeout s \<and>
         set (timers (cycleBatch s)) \<subseteq> set (timers s) \<and>
         (\<forall>t. batchTimeout s = Some t \<longrightarrow> t \<notin> set (timers (cycleBatch s))) \<and>
         batchedEvents (snd (flush s)) = batchedEvents s \<and>
         received (snd (flush s)) = received s \<and>
         pending (snd (flush s)) = pending s \<and>
         durableStore (snd (flush s)) = durableStore s"
proof -
  have "\<not> shouldCycleContinue (stopCycle s0)"
    by (simp add: stopCycle_def clearTimeout_def split: option.splits)
  with assms have stopped: "\<not> shouldCycleContinue s"
    by (rule run_keeps_stopped)
  have a: "set (timers (cycleBatch s)) \<subseteq> set (timers s)"
    "\<forall>t. batchTimeout s = Some t \<longrightarrow> t \<notin> set (timers (cycleBatch s))"
    using stopped by (auto simp add: cycleBatch_stopped_fields split: option.splits)
  have b: "batchedEvents (snd (flush s)) = batchedEvents s"
    "received (snd (flush s)) = received s"
    "pending (snd (flush s)) = pending s"
    "durableStore (snd (flush s)) = durableStore s"
    using stopped by (simp_all add: flush_state cycleBatch_stopped_fields)
  from stopped a b cycleBatch_stopped [OF stopped] cycleBatch_stopped_fields [OF stopped]
  show ?thesis
    by simp
qed

text \<open>An engine with \<^verbatim>\<open>period = 5\<close> is stopped, given two events and flushed.\<close>

theorem cycle_after_stop_witness:
  "\<exists>s0 s t. constructor (Some exampleSink) timedOptions exampleClock = Some s0 \<and>
     run [Emit [1, 2] ] (stopCycle s0) = Some s \<and>
     batchedEvents s = [1, 2] \<and> batchTimeout s = Some t \<and>
     t \<notin> set (timers (cycleBatch s)) \<and>
     batchedEvents (snd (flush s)) = [1, 2] \<and> received (snd (flush s)) = []"
proof -
  have "Option.bind (constructor (Some exampleSink) timedOptions exampleClock)
      (map_option (\<lambda>s. (batchedEvents s, received s, batchTimeout s)) \<circ> run [Emit [1, 2] ] \<circ> stopCycle)
      = Some ([1, 2], [], Some 1)"
    by code_simp
  then obtain s0 s where
    c: "constructor (Some exampleSink) timedOptions exampleClock = Some s0" and
    h: "run [Emit [1, 2] ] (stopCycle s0) = Some s" and
    v: "batchedEvents s = [1, 2]" "received s = []" "batchTimeout s = Some 1"
    by (auto simp add: bind_eq_Some_conv)
  note T = cycle_after_stop [OF h]
  have q1: "\<forall>t. batchTimeout s = Some t \<longrightarrow> t \<notin> set (timers (cycleBatch s))"
    using T by (elim conjE)
  have q2: "batchedEvents (snd (flush s)) = batchedEvents s"
    using T by (elim conjE)
  have q3: "received (snd (flush s)) = received s"
    using T by (elim conjE)
  from q1 q2 q3 v have
    "1 \<notin> set (timers (cycleBatch s))"
    "batchedEvents (snd (flush s)) = [1, 2]" "received (snd (flush s)) = []"
    by simp_all
  with c h v show ?thesis
    by (intro exI [of _ s0] exI [of _ s] exI [of _ 1] conjI)
qed

subsection \<open>A dispatch that fails\<close>

text \<open>
  C2. A cycle of a running engine with a buffer that is not empty dispatches the buffer
  as a snapshot and attaches a continuation that holds the snapshot and the batch key of
  that moment. When the acceptance of the \<open>i\<close>-th waiting dispatch fails, its \<open>k\<close>
  events go, in their order, to the front of the buffer of that later moment, and the
  store is left as it is: the entry under the key of the dispatch is not removed.
\<close>

theorem rejected_dispatch_is_requeued:
  "(shouldCycleContinue s \<and> batchedEvents s \<noteq> [] \<longrightarrow>
      (\<exists>d. pending (cycleBatch s) = pending s @ [d] \<and>
           processEvents d = batchedEvents s \<and> previousBatchKey d = batchKey s)) \<and>
   (step (Reject i) s = Some s' \<longrightarrow>
      batchedEvents s' = processEvents (pending s ! i) @ batchedEvents s \<and>
      length (batchedEvents s') = length (processEvents (pending s ! i)) + length (batchedEvents s) \<and>
      durableStore s' = durableStore s \<and>
      pending s' = take i (pending s) @ drop (Suc i) (pending s) \<and>
      received s' = received s \<and> batchKey s' = batchKey s)"
  by (auto simp add: cycleBatch_pending onRejected_def Let_def split: if_splits)

text \<open>Event 5 is dispatched by a flush, event 6 arrives, and the dispatch fails.\<close>

theorem rejected_dispatch_is_requeued_witness:
  "\<exists>s s'. Option.bind (constructor (Some exampleSink) timedOptions exampleClock)
       (run [Emit [5], Flush, Emit [6] ]) = Some s \<and>
     shouldCycleContinue s \<and> batchedEvents s \<noteq> [] \<and>
     (\<exists>d. pending (cycleBatch s) = pending s @ [d] \<and> processEvents d = [6]) \<and>
     step (Reject 0) s = Some s' \<and>
     batchedEvents s' = [5, 6] \<and>
     durableStore s' = durableStore s \<and>
     map_option (\<lambda>st. getItem st (previousBatchKey (pending s ! 0))) (durableStore s')
       = Some (Some [5])"
proof -
  have "map_option (\<lambda>s. (map_option batchedEvents (step (Reject 0) s), processEvents (pending s ! 0),
           batchedEvents s, shouldCycleContinue s,
           map_option (\<lambda>st. getItem st (previousBatchKey (pending s ! 0))) (durableStore s)))
      (Option.bind (constructor (Some exampleSink) timedOptions exampleClock)
         (run [Emit [5], Flush, Emit [6] ])) = Some (Some [5, 6], [5], [6], True, Some (Some [5]))"
    by code_simp
  then obtain s s' where
    h: "Option.bind (constructor (Some exampleSink) timedOptions exampleClock)
         (run [Emit [5], Flush, Emit [6] ]) = Some s"
      "step (Reject 0) s = Some s'"
    and v: "processEvents (pending s ! 0) = [5]" "batchedEvents s = [6]" "shouldCycleContinue s"
      "map_option (\<lambda>st. getItem st (previousBatchKey (pending s ! 0))) (durableStore s)
         = Some (Some [5])"
    by auto
  from rejected_dispatch_is_requeued [of s 0 s'] h v show ?thesis
    by auto
qed

subsection \<open>\<^verbatim>\<open>flush\<close>\<close>

text \<open>
  C7. \<^verbatim>\<open>flush()\<close> calls \<^verbatim>\<open>cycleBatch\<close> once and then the inner sink's \<^verbatim>\<open>flush\<close>. When
  that returns a promise, \<^verbatim>\<open>flush()\<close> returns this very promise, which settles as the
  sink's flush settles, fulfilled or rejected. Without an inner sink (and when the
  sink's \<^verbatim>\<open>flush\<close> returns no promise) it returns \<^verbatim>\<open>Promise.resolve()\<close>, which is
  fulfilled from the start.
\<close>

theorem flush_completion:
  "snd (flush s) = snd (flushCore (cycleBatch s)) \<and>
   cycleCalls (snd (flush s)) = Suc (cycleCalls s) \<and>
   (innerSink s = None \<longrightarrow>
      fst (flush s) = ResolvedPromise \<and> flushCalls (snd (flush s)) = flushCalls s) \<and>
   (\<forall>snk. innerSink s = Some snk \<longrightarrow>
      flushCalls (snd (flush s)) = Suc (flushCalls s) \<and>
      (flushReply snk = Promise \<longrightarrow>
         fst (flush s) = SinkFlushPromise \<and> settles (fst (flush s)) out = Some out) \<and>
      (flushReply snk \<noteq> Promise \<longrightarrow> fst (flush s) = ResolvedPromise)) \<and>
   settles ResolvedPromise out = Some Fulfilled"
  by (auto simp add: flush_def flushCore_def Let_def instanceofPromise_def split: option.splits)

text \<open>The fresh engine's \<^verbatim>\<open>flush()\<close> passes a rejection of the sink's flush on; without an
  inner sink the promise is fulfilled.\<close>

theorem flush_completion_witness:
  "innerSink exampleEngine = Some exampleSink \<and> flushReply exampleSink = Promise \<and>
   fst (flush exampleEngine) = SinkFlushPromise \<and>
   settles (fst (flush exampleEngine)) Rejected = Some Rejected \<and>
   cycleCalls (snd (flush exampleEngine)) = Suc (cycleCalls exampleEngine) \<and>
   innerSink bareEngine = None \<and>
   fst (flush bareEngine) = ResolvedPromise \<and>
   settles (fst (flush bareEngine)) Rejected = Some Fulfilled"
proof -
  have h: "innerSink exampleEngine = Some exampleSink" "flushReply exampleSink = Promise"
    "innerSink bareEngine = None"
    by (simp_all add: exampleEngine_def bareEngine_def newSink_def exampleSink_def)
  from flush_completion [of exampleEngine Rejected] flush_completion [of bareEngine Rejected] h
  show ?thesis
    by simp
qed

subsection \<open>The store\<close>

lemma getItem_setItem: "getItem (setItem st k v) k' = (if k' = k then Some v else getItem st k')"
  by (induction st k v rule: setItem.induct) auto

lemma getItem_removeItem: "getItem (removeItem st k) k' = (if k' = k then None else getItem st k')"
  by (induction st k rule: removeItem.induct) auto

lemma removeItem_filter: "removeItem st k = filter (\<lambda>p. fst p \<noteq> k) st"
  by (induction st k rule: removeItem.induct) auto

lemma keys_setItem:
  "map fst (setItem st k v) = (if k \<in> set (map fst st) then map fst st else map fst st @ [k])"
  by (induction st k v rule: setItem.induct) auto

lemma distinct_setItem: "distinct (map fst st) \<Longrightarrow> distinct (map fst (setItem st k v))"
  by (simp add: keys_setItem)

lemma distinct_removeItem: "distinct (map fst st) \<Longrightarrow> distinct (map fst (removeItem st k))"
  by (simp add: removeItem_filter distinct_map_filter)

lemma getItem_None_iff: "getItem st k = None \<longleftrightarrow> k \<notin> fst ` set st"
  by (induction st k rule: getItem.induct) auto

lemma getItem_append: "getItem (a @ b) k = (case getItem a k of None \<Rightarrow> getItem b k | Some v \<Rightarrow> Some v)"
  by (induction a k rule: getItem.induct) auto

lemma mirrored_storeEvents: "mirrored (storeEvents s)"
  by (simp add: mirrored_def storeEvents_def getItem_setItem split: option.splits)

lemma emit_mirrored:
  assumes "emit es s = Some (r, s')"
  shows "mirrored s'"
proof (cases "int (length (batchedEvents s)) + int (length es) \<le> maxSize s")
  case True
  with assms have "s' = storeEvents (push es s)"
    by (auto simp add: emit_def)
  then show ?thesis
    by (simp add: mirrored_storeEvents)
next
  case False
  define c where "c = (if maxSize s - int (length (batchedEvents s)) < 0 then 0
                      else maxSize s - int (length (batchedEvents s)))"
  define s1 where "s1 = storeEvents (push (slice es 0 c) s)"
  from False assms have loop: "emitLoop es c s1 = Some s'"
    by (auto simp add: emit_def Let_def c_def s1_def)
  have start: "mirrored s1"
    by (simp add: s1_def mirrored_storeEvents)
  have turn: "\<And>xs s. mirrored s \<Longrightarrow> mirrored (storeEvents (push xs (cycleBatch s)))"
    by (simp add: mirrored_storeEvents)
  from loop start turn show ?thesis
    by (rule emitLoop_invariant)
qed

lemma keysDistinct_storeEvents: "keysDistinct s \<Longrightarrow> keysDistinct (storeEvents (push xs s))"
  by (simp add: keysDistinct_def storeEvents_def push_def distinct_setItem split: option.splits)

lemma keysDistinct_cycleBatch: "keysDistinct s \<Longrightarrow> keysDistinct (cycleBatch s)"
  by (simp add: keysDistinct_def)

lemma run_keeps_keysDistinct:
  assumes "run as s = Some s'" and "keysDistinct s"
  shows "keysDistinct s'"
  using assms
proof (rule run_invariant)
  show "\<And>xs s. keysDistinct s \<Longrightarrow> keysDistinct (storeEvents (push xs s))"
    by (rule keysDistinct_storeEvents)
  show "\<And>i s. keysDistinct s \<Longrightarrow> keysDistinct (onFulfilled i s)"
    by (simp add: keysDistinct_def onFulfilled_def Let_def distinct_removeItem
        split: option.splits)
qed (simp_all add: keysDistinct_def stopCycle_def clearTimeout_def onRejected_def Let_def
      split: option.splits)

lemma rehydrate_distinct:
  "distinct (map fst st) \<Longrightarrow> distinct (map fst (snd (rehydrate ks (b, st))))"
  by (induction ks arbitrary: b st) (auto simp add: distinct_removeItem split: option.splits)

lemma constructor_keysDistinct:
  assumes "constructor snk opts clk = Some s"
    and "case optDurableStore opts of None \<Rightarrow> True | Some st \<Rightarrow> distinct (map fst st)"
  shows "keysDistinct s"
proof -
  define s1 where "s1 = cycleBatch (newSink snk opts clk)"
  have store1: "durableStore s1 = optDurableStore opts"
    by (simp add: s1_def newSink_def)
  show ?thesis
  proof (cases "optDurableStore opts")
    case None
    with assms(1) store1 show ?thesis
      by (auto simp add: constructor_def s1_def keysDistinct_def)
  next
    case (Some st)
    define b where "b = fst (rehydrate (map fst st) ([], st))"
    define st' where "st' = snd (rehydrate (map fst st) ([], st))"
    from assms(1) Some store1 obtain r where
      e: "emit b (s1\<lparr>durableStore := Some st'\<rparr>) = Some (r, s)"
      by (auto simp add: constructor_def s1_def b_def st'_def Let_def split: prod.splits)
    have "distinct (map fst st')"
      using assms(2) Some unfolding st'_def by (simp add: rehydrate_distinct)
    then have "keysDistinct (s1\<lparr>durableStore := Some st'\<rparr>)"
      by (simp add: keysDistinct_def)
    with e show ?thesis
      by (rule emit_invariant) (simp_all add: keysDistinct_cycleBatch keysDistinct_storeEvents)
  qed
qed

lemma cycleBatch_clockwork:
  "reads (cycleBatch s) = (if shouldCycleContinue s then Suc (reads s) else reads s)"
  "batchKey (cycleBatch s) =
     (if shouldCycleContinue s then mkBatchKey (clock s (reads s)) else batchKey s)"
  by (simp_all add: cycleBatch_def Let_def clearTimeout_def dispatchBatch_def setTimeout_def
      split: option.splits)

lemma filter_other_keys: "k \<notin> fst ` set xs \<Longrightarrow> filter (\<lambda>p. fst p \<noteq> k) xs = xs"
  by (induction xs) auto

text \<open>The rehydration loop on a store with one entry per key.\<close>

lemma rehydrate_all:
  assumes "distinct (map fst (pre @ xs))"
  shows "rehydrate (map fst xs) (acc, filter (\<lambda>p. \<not> inNamespace (fst p)) pre @ xs) =
           (acc @ concat (map snd (filter (\<lambda>p. inNamespace (fst p)) xs)),
            filter (\<lambda>p. \<not> inNamespace (fst p)) (pre @ xs))"
  using assms
proof (induction xs arbitrary: pre acc)
  case Nil
  then show ?case
    by simp
next
  case (Cons x xs)
  obtain k v where x: "x = (k, v)"
    by (cases x)
  define F where "F = filter (\<lambda>p. \<not> inNamespace (fst p)) pre"
  have fresh: "k \<notin> fst ` set F" "k \<notin> fst ` set xs"
    using Cons.prems by (auto simp add: x F_def)
  have get: "getItem (F @ (k, v) # xs) k = Some v"
    using fresh(1) by (simp add: getItem_append getItem_None_iff [THEN iffD2])
  have rem: "removeItem (F @ (k, v) # xs) k = F @ xs"
    using fresh by (simp add: removeItem_filter filter_other_keys)
  have d: "distinct (map fst ((pre @ [x]) @ xs))"
    using Cons.prems by simp
  note IH = Cons.IH [OF d]
  show ?case
  proof (cases "inNamespace k")
    case True
    then have "filter (\<lambda>p. \<not> inNamespace (fst p)) (pre @ [x]) = F"
      by (simp add: x F_def)
    with IH [of "acc @ v"] True get rem show ?thesis
      by (simp add: x F_def)
  next
    case False
    then have "filter (\<lambda>p. \<not> inNamespace (fst p)) (pre @ [x]) = F @ [(k, v)]"
      by (simp add: x F_def)
    with IH [of acc] False get show ?thesis
      by (simp add: x F_def)
  qed
qed

lemma rehydrate_store:
  assumes "distinct (map fst st)"
  shows "rehydrate (map fst st) ([], st) =
           (concat (map snd (filter (\<lambda>p. inNamespace (fst p)) st)),
            filter (\<lambda>p. \<not> inNamespace (fst p)) st)"
  using rehydrate_all [of "[]" st "[]"] assms by simp

text \<open>A running engine, any buffer: what \<^verbatim>\<open>emit\<close> dispatches and what it keeps.\<close>

lemma emit_running:
  assumes "0 < maxSize s" and "shouldCycleContinue s"
  shows "\<exists>s' ds. emit es s = Some (es, s') \<and>
           pending s' = pending s @ ds \<and>
           received s' =
             received s @ (if innerSink s = None then [] else map processEvents ds) \<and>
           concat (map processEvents ds) @ batchedEvents s' = batchedEvents s @ es"
proof (cases "int (length (batchedEvents s)) + int (length es) \<le> maxSize s")
  case True
  then have "emit es s = Some (es, storeEvents (push es s))"
    by (simp add: emit_def)
  then show ?thesis
    by (intro exI [of _ "storeEvents (push es s)"] exI [of _ "[]"]) simp
next
  case False
  define c where "c = (if maxSize s - int (length (batchedEvents s)) < 0 then 0
                      else maxSize s - int (length (batchedEvents s)))"
  define s1 where "s1 = storeEvents (push (slice es 0 c) s)"
  have c: "0 \<le> c"
    by (simp add: c_def)
  have pre: "0 < maxSize s1" "shouldCycleContinue s1" "0 \<le> c"
    using assms c by (simp_all add: s1_def)
  have buf1: "batchedEvents s1 = batchedEvents s @ take (nat c) es"
    using c by (simp add: s1_def slice_first)
  have fields1: "received s1 = received s" "innerSink s1 = innerSink s" "pending s1 = pending s"
    by (simp_all add: s1_def)
  from emitLoop_running [OF pre, where es = es] obtain s' ds where
    loop: "emitLoop es c s1 = Some s'" and
    pen: "pending s' = pending s1 @ ds" and
    rec: "received s' = received s1 @ (if innerSink s1 = None then [] else map processEvents ds)" and
    cat: "concat (map processEvents ds) @ batchedEvents s' = batchedEvents s1 @ drop (nat c) es" and
    bnd: "\<forall>d \<in> set ds. int (length (processEvents d))
            \<le> max (int (length (batchedEvents s1))) (maxSize s1)" and
    run: "shouldCycleContinue s'" "innerSink s' = innerSink s1"
    by (elim exE conjE)
  have e1: "emit es s = Some (es, s')"
    using False loop by (simp add: emit_def Let_def c_def s1_def)
  have e4: "concat (map processEvents ds) @ batchedEvents s' = batchedEvents s @ es"
    using cat by (simp add: buf1)
  from e1 pen rec e4 show ?thesis
    by (intro exI [of _ s'] exI [of _ ds]) (simp add: fields1)
qed

text \<open>The keys of the namespace in the store are batch keys made from the clock's readings.\<close>

lemma issuedOnly_cycleBatch: "issuedOnly clk u \<Longrightarrow> issuedOnly clk (cycleBatch u)"
  unfolding issuedOnly_def issuedKeys_def
  by (cases "shouldCycleContinue u") (auto simp add: cycleBatch_clockwork lessThan_Suc)

lemma issuedOnly_storeEvents: "issuedOnly clk u \<Longrightarrow> issuedOnly clk (storeEvents (push xs u))"
  unfolding issuedOnly_def issuedKeys_def
  by (auto simp add: storeEvents_durableStore getItem_setItem split: if_splits)

lemma onFulfilled_store:
  "durableStore (onFulfilled i s) =
     map_option (\<lambda>st. removeItem st (previousBatchKey (pending s ! i))) (durableStore s)"
  by (simp add: onFulfilled_def Let_def split: option.splits)

lemma onRejected_fields:
  "durableStore (onRejected i s) = durableStore s"
  "batchedEvents (onRejected i s) = processEvents (pending s ! i) @ batchedEvents s"
  by (simp_all add: onRejected_def Let_def)

subsection \<open>Batch keys of different readings\<close>

lemma digit_char_inj: "d < 10 \<Longrightarrow> e < 10 \<Longrightarrow> digit_char d = digit_char e \<Longrightarrow> d = e"
proof -
  assume a: "d < 10" "e < 10" "digit_char d = digit_char e"
  have "distinct ''0123456789''"
    by simp
  with a show "d = e"
    by (simp add: digit_char_def nth_eq_iff_index_eq)
qed

lemma show_nat_nonempty: "show_nat n \<noteq> []"
  by (subst show_nat.simps) simp

lemma show_nat_inj: "show_nat n = show_nat m \<Longrightarrow> n = m"
proof (induction n arbitrary: m rule: show_nat.induct)
  case (1 n)
  show ?case
  proof (cases "n < 10")
    case True
    show ?thesis
    proof (cases "m < 10")
      case m: True
      from "1.prems" True m have "digit_char n = digit_char m"
        by (simp add: show_nat.simps)
      with True m show ?thesis
        by (rule digit_char_inj)
    next
      case False
      with "1.prems" True have "[digit_char n] = show_nat (m div 10) @ [digit_char (m mod 10)]"
        by (simp add: show_nat.simps [of n] show_nat.simps [of m])
      then show ?thesis
        using show_nat_nonempty [of "m div 10"] by auto
    qed
  next
    case False
    show ?thesis
    proof (cases "m < 10")
      case True
      with "1.prems" False have "show_nat (n div 10) @ [digit_char (n mod 10)] = [digit_char m]"
        by (simp add: show_nat.simps [of n] show_nat.simps [of m])
      then show ?thesis
        using show_nat_nonempty [of "n div 10"] by auto
    next
      case m: False
      with "1.prems" False have
        "show_nat (n div 10) @ [digit_char (n mod 10)] =
         show_nat (m div 10) @ [digit_char (m mod 10)]"
        by (simp add: show_nat.simps [of n] show_nat.simps [of m])
      then have hi: "show_nat (n div 10) = show_nat (m div 10)"
        and lo: "digit_char (n mod 10) = digit_char (m mod 10)"
        by simp_all
      from "1.IH" [OF False hi] have "n div 10 = m div 10" .
      moreover have "n mod 10 = m mod 10"
        using lo by (intro digit_char_inj) simp_all
      ultimately show ?thesis
        by (metis div_mult_mod_eq)
    qed
  qed
qed

lemma mkBatchKey_inj: "mkBatchKey t = mkBatchKey u \<Longrightarrow> t = u"
  by (simp add: mkBatchKey_def show_nat_inj)

lemma dispatchedEarlier_cycleBatch:
  assumes "dispatchedEarlier clk u"
  shows "dispatchedEarlier clk (cycleBatch u)"
proof (cases "shouldCycleContinue u")
  case False
  with assms show ?thesis
    by (simp add: dispatchedEarlier_def cycleBatch_clockwork cycleBatch_stopped_fields)
next
  case True
  from assms have inv: "clock u = clk" "0 < reads u"
    "batchKey u = mkBatchKey (clk (reads u - 1))"
    "\<forall>d \<in> set (pending u). \<exists>j < reads u - 1. previousBatchKey d = mkBatchKey (clk j)"
    by (simp_all add: dispatchedEarlier_def)
  have "\<exists>j < reads u. previousBatchKey d = mkBatchKey (clk j)"
    if "d \<in> set (pending (cycleBatch u))" for d
  proof (cases "d \<in> set (pending u)")
    case old: True
    with inv(4) obtain j where "j < reads u - 1" "previousBatchKey d = mkBatchKey (clk j)"
      by blast
    then show ?thesis
      by (intro exI [of _ j]) simp
  next
    case new: False
    with that True have "previousBatchKey d = batchKey u"
      by (auto simp add: cycleBatch_pending split: if_splits)
    with inv(2,3) show ?thesis
      by (intro exI [of _ "reads u - 1"]) simp
  qed
  with True inv show ?thesis
    by (simp add: dispatchedEarlier_def cycleBatch_clockwork)
qed

lemma dispatchedEarlier_storeEvents:
  "dispatchedEarlier clk u \<Longrightarrow> dispatchedEarlier clk (storeEvents (push xs u))"
  by (simp add: dispatchedEarlier_def)

lemma run_keeps_dispatchedEarlier:
  assumes "run as s = Some s'" and "dispatchedEarlier clk s"
  shows "dispatchedEarlier clk s'"
  using assms
proof (rule run_invariant)
  show "\<And>s. dispatchedEarlier clk s \<Longrightarrow> dispatchedEarlier clk (cycleBatch s)"
    by (rule dispatchedEarlier_cycleBatch)
  show "\<And>xs s. dispatchedEarlier clk s \<Longrightarrow> dispatchedEarlier clk (storeEvents (push xs s))"
    by (rule dispatchedEarlier_storeEvents)
  show "\<And>i s. dispatchedEarlier clk s \<Longrightarrow> dispatchedEarlier clk (onFulfilled i s)"
    by (auto simp add: dispatchedEarlier_def onFulfilled_def Let_def
        dest!: in_set_takeD in_set_dropD split: option.splits)
  show "\<And>i s. dispatchedEarlier clk s \<Longrightarrow> dispatchedEarlier clk (onRejected i s)"
    by (auto simp add: dispatchedEarlier_def onRejected_def Let_def
        dest!: in_set_takeD in_set_dropD)
  show "\<And>s. dispatchedEarlier clk s \<Longrightarrow> dispatchedEarlier clk (snd (flushCore s))"
    by (simp add: dispatchedEarlier_def flushCore_def split: option.splits)
qed (simp_all add: dispatchedEarlier_def stopCycle_def clearTimeout_def split: option.splits)

lemma constructor_dispatchedEarlier:
  assumes "constructor snk opts clk = Some s"
  shows "dispatchedEarlier clk s"
proof -
  define s1 where "s1 = cycleBatch (newSink snk opts clk)"
  have d1: "dispatchedEarlier clk s1"
    by (simp add: dispatchedEarlier_def s1_def cycleBatch_clockwork cycleBatch_pending
        newSink_def)
  show ?thesis
  proof (cases "durableStore s1")
    case None
    with assms d1 show ?thesis
      by (simp add: constructor_def s1_def)
  next
    case (Some st)
    define b where "b = fst (rehydrate (map fst st) ([], st))"
    define st' where "st' = snd (rehydrate (map fst st) ([], st))"
    from assms Some obtain r where e: "emit b (s1\<lparr>durableStore := Some st'\<rparr>) = Some (r, s)"
      by (auto simp add: constructor_def s1_def b_def st'_def Let_def split: prod.splits)
    have "dispatchedEarlier clk (s1\<lparr>durableStore := Some st'\<rparr>)"
      using d1 by (simp add: dispatchedEarlier_def)
    with e show ?thesis
      by (rule emit_invariant)
         (simp_all add: dispatchedEarlier_cycleBatch dispatchedEarlier_storeEvents)
  qed
qed

lemma dispatched_key_stale:
  assumes "dispatchedEarlier clk s" and "strict_mono clk" and "d \<in> set (pending s)"
  shows "previousBatchKey d \<noteq> batchKey s"
proof
  assume eq: "previousBatchKey d = batchKey s"
  from assms(1,3) obtain j where j: "j < reads s - 1"
    and k: "previousBatchKey d = mkBatchKey (clk j)"
    by (auto simp add: dispatchedEarlier_def)
  from assms(1) have "batchKey s = mkBatchKey (clk (reads s - 1))"
    by (simp add: dispatchedEarlier_def)
  with eq k have "clk j = clk (reads s - 1)"
    by (simp add: mkBatchKey_inj)
  moreover from j assms(2) have "clk j < clk (reads s - 1)"
    by (simp add: strict_mono_def)
  ultimately show False
    by simp
qed

subsection \<open>The buffer and its entry in the store\<close>

text \<open>
  C5, amended. An engine has one buffer and one batch key at every moment. Take an
  engine built on a store with one entry per key, and any run of it. The store still has
  one entry per key. A cycle leaves the store as it is. Whenever an \<^verbatim>\<open>emit\<close> returns,
  the entry under the active key is the buffer. When the acceptance of a dispatch
  succeeds, the entry under the key of the dispatch leaves the store. When it fails, the
  snapshot goes back into the buffer and the store is left as it is: the resolution
  does not remove the entry, and the buffer is not written to the store until the next
  \<^verbatim>\<open>emit\<close>. When the readings of the clock are strictly increasing, the key of every
  waiting dispatch, and of a dispatch that has just failed, is not the active key.
\<close>

theorem store_bookkeeping:
  assumes "constructor snk opts clk = Some s0"
    and "case optDurableStore opts of None \<Rightarrow> True | Some st \<Rightarrow> distinct (map fst st)"
    and "run as s0 = Some s"
  shows "keysDistinct s \<and>
         durableStore (cycleBatch s) = durableStore s \<and>
         (\<forall>es r s'. emit es s = Some (r, s') \<longrightarrow> mirrored s') \<and>
         (\<forall>i s' st'. step (Fulfil i) s = Some s' \<and> durableStore s' = Some st' \<longrightarrow>
            getItem st' (previousBatchKey (pending s ! i)) = None) \<and>
         (\<forall>i s'. step (Reject i) s = Some s' \<longrightarrow>
            durableStore s' = durableStore s \<and>
            batchedEvents s' = processEvents (pending s ! i) @ batchedEvents s) \<and>
         (strict_mono clk \<longrightarrow>
            (\<forall>d \<in> set (pending s). previousBatchKey d \<noteq> batchKey s) \<and>
            (\<forall>i s'. step (Reject i) s = Some s' \<longrightarrow>
               previousBatchKey (pending s ! i) \<noteq> batchKey s'))"
proof -
  have "keysDistinct s0"
    using assms(1,2) by (rule constructor_keysDistinct)
  with assms(3) have a: "keysDistinct s"
    by (rule run_keeps_keysDistinct)
  have b: "\<forall>es r s'. emit es s = Some (r, s') \<longrightarrow> mirrored s'"
    by (intro allI impI) (rule emit_mirrored)
  have c: "\<forall>i s' st'. step (Fulfil i) s = Some s' \<and> durableStore s' = Some st' \<longrightarrow>
      getItem st' (previousBatchKey (pending s ! i)) = None"
  proof (intro allI impI)
    fix i s' st'
    assume h: "step (Fulfil i) s = Some s' \<and> durableStore s' = Some st'"
    then have "s' = onFulfilled i s"
      by (simp split: if_splits)
    with h have "map_option (\<lambda>st. removeItem st (previousBatchKey (pending s ! i)))
        (durableStore s) = Some st'"
      by (simp add: onFulfilled_store)
    then show "getItem st' (previousBatchKey (pending s ! i)) = None"
      by (auto simp add: getItem_removeItem)
  qed
  have d: "\<forall>i s'. step (Reject i) s = Some s' \<longrightarrow>
      durableStore s' = durableStore s \<and>
      batchedEvents s' = processEvents (pending s ! i) @ batchedEvents s"
  proof (intro allI impI)
    fix i s'
    assume "step (Reject i) s = Some s'"
    then have "s' = onRejected i s"
      by (simp split: if_splits)
    then show "durableStore s' = durableStore s \<and>
        batchedEvents s' = processEvents (pending s ! i) @ batchedEvents s"
      by (simp add: onRejected_fields)
  qed
  have e: "durableStore (cycleBatch s) = durableStore s"
    by simp
  have "dispatchedEarlier clk s0"
    using assms(1) by (rule constructor_dispatchedEarlier)
  with assms(3) have order: "dispatchedEarlier clk s"
    by (rule run_keeps_dispatchedEarlier)
  have f: "strict_mono clk \<longrightarrow>
      (\<forall>d \<in> set (pending s). previousBatchKey d \<noteq> batchKey s) \<and>
      (\<forall>i s'. step (Reject i) s = Some s' \<longrightarrow>
         previousBatchKey (pending s ! i) \<noteq> batchKey s')"
  proof (intro impI conjI ballI allI)
    fix d
    assume "strict_mono clk" and "d \<in> set (pending s)"
    with order show "previousBatchKey d \<noteq> batchKey s"
      by (rule dispatched_key_stale)
  next
    fix i s'
    assume mono: "strict_mono clk" and st: "step (Reject i) s = Some s'"
    from st have i: "i < length (pending s)" and s': "s' = onRejected i s"
      by (simp_all split: if_splits)
    from i have "pending s ! i \<in> set (pending s)"
      by simp
    with order mono have "previousBatchKey (pending s ! i) \<noteq> batchKey s"
      by (rule dispatched_key_stale)
    moreover have "batchKey s' = batchKey s"
      by (simp add: s' onRejected_def Let_def)
    ultimately show "previousBatchKey (pending s ! i) \<noteq> batchKey s'"
      by simp
  qed
  show ?thesis
    by (intro conjI) (rule a e b c d f)+
qed

text \<open>An engine built on the example store, after an \<^verbatim>\<open>emit\<close> and a \<^verbatim>\<open>flush\<close>.\<close>

theorem store_bookkeeping_witness:
  "\<exists>s0 s s1 s2 st2 s3. constructor (Some exampleSink) durableOptions exampleClock = Some s0 \<and>
     (case optDurableStore durableOptions of None \<Rightarrow> True | Some st \<Rightarrow> distinct (map fst st)) \<and>
     run [Emit [5], Flush] s0 = Some s \<and>
     keysDistinct s \<and>
     emit [6] s = Some ([6], s1) \<and> mirrored s1 \<and>
     step (Fulfil 0) s = Some s2 \<and> durableStore s2 = Some st2 \<and>
     getItem st2 (previousBatchKey (pending s ! 0)) = None \<and>
     step (Reject 0) s = Some s3 \<and> durableStore s3 = durableStore s \<and>
     strict_mono exampleClock \<and> pending s \<noteq> [] \<and>
     (\<forall>d \<in> set (pending s). previousBatchKey d \<noteq> batchKey s) \<and>
     previousBatchKey (pending s ! 0) \<noteq> batchKey s3"
proof -
  have "Option.bind (Option.bind (constructor (Some exampleSink) durableOptions exampleClock)
      (run [Emit [5], Flush]))
      (\<lambda>s. Option.bind (emit [6] s) (\<lambda>r1. Option.bind (step (Fulfil 0) s) (\<lambda>s2.
         Option.bind (durableStore s2) (\<lambda>st2. Option.bind (step (Reject 0) s) (\<lambda>s3.
           Some (fst r1)))))) = Some [6]"
    by code_simp
  then obtain s0 s s1 s2 st2 s3 where
    h: "constructor (Some exampleSink) durableOptions exampleClock = Some s0"
       "run [Emit [5], Flush] s0 = Some s" and
    r: "emit [6] s = Some ([6], s1)" "step (Fulfil 0) s = Some s2" "durableStore s2 = Some st2"
       "step (Reject 0) s = Some s3"
    by (auto simp add: bind_eq_Some_conv)
  have d: "case optDurableStore durableOptions of None \<Rightarrow> True
           | Some st \<Rightarrow> distinct (map fst st)"
    by (simp add: durableOptions_def exampleStore_def)
  have m: "strict_mono exampleClock"
    by (simp add: strict_mono_def exampleClock_def)
  have p: "pending s \<noteq> []"
    using r(4) by (auto split: if_splits)
  note T = store_bookkeeping [OF h(1) d h(2)]
  from T r m have
    "keysDistinct s" "mirrored s1" "getItem st2 (previousBatchKey (pending s ! 0)) = None"
    "durableStore s3 = durableStore s"
    "\<forall>d \<in> set (pending s). previousBatchKey d \<noteq> batchKey s"
    "previousBatchKey (pending s ! 0) \<noteq> batchKey s3"
    by blast+
  with h r d m p show ?thesis
    by (intro exI [of _ s0] exI [of _ s] exI [of _ s1] exI [of _ s2] exI [of _ st2]
        exI [of _ s3] conjI)
qed

text \<open>
  C5, as stated, fails. Event 5 is emitted and flushed, and the dispatch fails. No
  dispatch is waiting any more, yet the store holds an entry under the key of the
  dispatch, which is not the active key; and the buffer \<open>[5]\<close> has no entry under the
  active key.
\<close>

theorem store_bookkeeping_counterexample:
  "map_option pending retryScenario = Some [] \<and>
   map_option batchedEvents retryScenario = Some [5] \<and>
   map_option batchKey retryScenario = Some ''serilogger-batched-sink-durable-cache-101'' \<and>
   map_option durableStore retryScenario =
     Some (Some [(''serilogger-batched-sink-durable-cache-100'', [5])])"
  by code_simp

subsection \<open>Rehydration\<close>

lemma otherEntries_no_namespace: "inNamespace k \<Longrightarrow> getItem (otherEntries st) k = None"
  by (auto simp add: otherEntries_def getItem_None_iff)

text \<open>
  C3. The constructor is given a store with one entry per key, of which \<open>N\<close> are of the
  namespace, and a positive \<^verbatim>\<open>maxSize\<close>. Its loop reads each of the \<open>N\<close> entries once,
  in the store's order, and removes it: when the loop ends the store holds no key of the
  namespace and the other entries as they were. The events read are then the argument
  of one call of \<^verbatim>\<open>emit\<close> on the fresh engine, and the constructor returns. In the
  engine it returns each event read is in one place and once, in a dispatched snapshot
  or in the buffer, in the order read; with an inner sink the snapshots are the batches
  it has received. The entry under the active key is the buffer, and a key of the
  namespace in the store is a batch key that this constructor has made from the clock.
\<close>

theorem constructor_rehydrates:
  assumes "optDurableStore opts = Some st" and "distinct (map fst st)"
    and "0 < (case optMaxSize opts of None \<Rightarrow> defaultMaxSize | Some m \<Rightarrow> m)"
  shows "rehydrate (map fst st) ([], st) = (namespaceEvents st, otherEntries st) \<and>
         (\<forall>k. inNamespace k \<longrightarrow> getItem (otherEntries st) k = None) \<and>
         constructor snk opts clk =
           map_option snd
             (emit (namespaceEvents st)
                ((cycleBatch (newSink snk opts clk))\<lparr>durableStore := Some (otherEntries st)\<rparr>)) \<and>
         (\<exists>s' st'. constructor snk opts clk = Some s' \<and> durableStore s' = Some st' \<and>
            concat (map processEvents (pending s')) @ batchedEvents s' = namespaceEvents st \<and>
            received s' = (if snk = None then [] else map processEvents (pending s')) \<and>
            getItem st' (batchKey s') = Some (batchedEvents s') \<and>
            (\<forall>k. inNamespace k \<and> getItem st' k \<noteq> None \<longrightarrow> k \<in> issuedKeys clk (reads s')))"
proof -
  define s1 where "s1 = cycleBatch (newSink snk opts clk)"
  define t where "t = s1\<lparr>durableStore := Some (otherEntries st)\<rparr>"
  have loop: "rehydrate (map fst st) ([], st) = (namespaceEvents st, otherEntries st)"
    using assms(2) by (simp add: rehydrate_store namespaceEvents_def otherEntries_def)
  have none: "\<forall>k. inNamespace k \<longrightarrow> getItem (otherEntries st) k = None"
    by (simp add: otherEntries_no_namespace)
  have store1: "durableStore s1 = Some st"
    using assms(1) by (simp add: s1_def newSink_def)
  have con: "constructor snk opts clk = map_option snd (emit (namespaceEvents st) t)"
    using store1 loop by (simp add: constructor_def Let_def s1_def [symmetric] t_def)
  have t_fields: "0 < maxSize t" "shouldCycleContinue t" "innerSink t = snk"
    "pending t = []" "received t = []" "batchedEvents t = []"
    using assms(3)
    by (simp_all add: t_def s1_def cycleBatch_pending cycleBatch_received newSink_def)
  from emit_running [OF t_fields(1,2), where es = "namespaceEvents st"] obtain s' ds where
    e: "emit (namespaceEvents st) t = Some (namespaceEvents st, s')" and
    pen: "pending s' = pending t @ ds" and
    rec: "received s' = received t @ (if innerSink t = None then [] else map processEvents ds)" and
    cat: "concat (map processEvents ds) @ batchedEvents s' = batchedEvents t @ namespaceEvents st"
    by (elim exE conjE)
  have "durableStore t \<noteq> None"
    by (simp add: t_def)
  with e have "durableStore s' \<noteq> None"
    by (rule emit_invariant) (simp_all add: storeEvents_durableStore)
  then obtain st' where st': "durableStore s' = Some st'"
    by auto
  have "mirrored s'"
    using e by (rule emit_mirrored)
  with st' have mir: "getItem st' (batchKey s') = Some (batchedEvents s')"
    by (simp add: mirrored_def)
  have "issuedOnly clk t"
    unfolding issuedOnly_def issuedKeys_def
    by (auto simp add: t_def s1_def cycleBatch_clockwork newSink_def otherEntries_no_namespace)
  with e have "issuedOnly clk s'"
    by (rule emit_invariant) (simp_all add: issuedOnly_cycleBatch issuedOnly_storeEvents)
  with st' have iss: "\<forall>k. inNamespace k \<and> getItem st' k \<noteq> None \<longrightarrow> k \<in> issuedKeys clk (reads s')"
    by (simp add: issuedOnly_def)
  have c1: "constructor snk opts clk = Some s'"
    using con e by simp
  have c2: "concat (map processEvents (pending s')) @ batchedEvents s' = namespaceEvents st"
    using cat pen by (simp add: t_fields)
  have c3: "received s' = (if snk = None then [] else map processEvents (pending s'))"
    using rec pen by (simp add: t_fields)
  have last: "\<exists>s' st'. constructor snk opts clk = Some s' \<and> durableStore s' = Some st' \<and>
            concat (map processEvents (pending s')) @ batchedEvents s' = namespaceEvents st \<and>
            received s' = (if snk = None then [] else map processEvents (pending s')) \<and>
            getItem st' (batchKey s') = Some (batchedEvents s') \<and>
            (\<forall>k. inNamespace k \<and> getItem st' k \<noteq> None \<longrightarrow> k \<in> issuedKeys clk (reads s'))"
    using c1 st' c2 c3 mir iss by (intro exI [of _ s'] exI [of _ st'] conjI)
  show ?thesis
    using loop none con last unfolding t_def s1_def by (intro conjI)
qed

text \<open>The example store: entries of four events in all, and \<^verbatim>\<open>maxSize = 3\<close>.\<close>

theorem constructor_rehydrates_witness:
  "optDurableStore durableOptions = Some exampleStore \<and> distinct (map fst exampleStore) \<and>
   0 < (case optMaxSize durableOptions of None \<Rightarrow> defaultMaxSize | Some m \<Rightarrow> m) \<and>
   namespaceEvents exampleStore = [1, 2, 3, 4] \<and>
   inNamespace ''serilogger-batched-sink-durable-cache-7'' \<and>
   getItem (otherEntries exampleStore) ''serilogger-batched-sink-durable-cache-7'' = None \<and>
   (\<exists>s' st'. constructor (Some exampleSink) durableOptions exampleClock = Some s' \<and>
      durableStore s' = Some st' \<and>
      concat (map processEvents (pending s')) @ batchedEvents s' = [1, 2, 3, 4] \<and>
      received s' = map processEvents (pending s') \<and>
      getItem st' (batchKey s') = Some (batchedEvents s') \<and>
      inNamespace (batchKey s') \<and>
      batchKey s' \<in> issuedKeys exampleClock (reads s'))"
proof -
  have h: "optDurableStore durableOptions = Some exampleStore" "distinct (map fst exampleStore)"
    "0 < (case optMaxSize durableOptions of None \<Rightarrow> defaultMaxSize | Some m \<Rightarrow> m)"
    by (simp_all add: durableOptions_def exampleStore_def)
  have v: "namespaceEvents exampleStore = [1, 2, 3, 4]"
    by code_simp
  have n: "inNamespace ''serilogger-batched-sink-durable-cache-7''"
    by code_simp
  have ns: "map_option (inNamespace \<circ> batchKey)
      (constructor (Some exampleSink) durableOptions exampleClock) = Some True"
    by code_simp
  note T = constructor_rehydrates [OF h, of "Some exampleSink" exampleClock]
  from T n have g: "getItem (otherEntries exampleStore) ''serilogger-batched-sink-durable-cache-7'' = None"
    by blast
  from T obtain s' st' where
    a: "constructor (Some exampleSink) durableOptions exampleClock = Some s'"
      "durableStore s' = Some st'"
      "concat (map processEvents (pending s')) @ batchedEvents s' = namespaceEvents exampleStore"
      "received s' = (if Some exampleSink = None then [] else map processEvents (pending s'))"
      "getItem st' (batchKey s') = Some (batchedEvents s')"
      "\<forall>k. inNamespace k \<and> getItem st' k \<noteq> None \<longrightarrow> k \<in> issuedKeys exampleClock (reads s')"
    by (elim exE conjE)
  have b: "inNamespace (batchKey s')"
    using ns a(1) by simp
  with a(5,6) have c: "batchKey s' \<in> issuedKeys exampleClock (reads s')"
    by simp
  have "\<exists>s' st'. constructor (Some exampleSink) durableOptions exampleClock = Some s' \<and>
      durableStore s' = Some st' \<and>
      concat (map processEvents (pending s')) @ batchedEvents s' = [1, 2, 3, 4] \<and>
      received s' = map processEvents (pending s') \<and>
      getItem st' (batchKey s') = Some (batchedEvents s') \<and>
      inNamespace (batchKey s') \<and>
      batchKey s' \<in> issuedKeys exampleClock (reads s')"
    using a(1-5) v b c by (intro exI [of _ s'] exI [of _ st']) simp
  with h v n g show ?thesis
    by (intro conjI)
qed

end
